theory Spec2Isabelle
  imports Complex_Main "HOL-Library.Log_Nat"
begin

section \<open>The Python values the simulation works on\<close>

text \<open>
  The program is \<^verbatim>\<open>app.montecarlo.py\<close>: a sampler over empirical distribution
  tables (\<^verbatim>\<open>get_simulation_value\<close>), the simulation loop
  (\<^verbatim>\<open>run_monte_carlo_simulation\<close>), the table display with its random-number bands
  (\<^verbatim>\<open>display_distribution_table\<close>) and the summary of extreme periods.

  A Python \<^verbatim>\<open>str\<close> is a sequence of Unicode code points. The interval labels contain
  code points above 255 (the en dash U+2013 and the em dash U+2014), so a string is a list
  of code points here, not a list of 8-bit characters.
\<close>

type_synonym pystr = "nat list"

definition ascii :: "string \<Rightarrow> pystr" where
  "ascii s = map of_char s"

text \<open>The exceptions that the modelled code can raise.\<close>

datatype pyerr = ValueError | OverflowError | ZeroDivisionError

definition ebind :: "pyerr + 'a \<Rightarrow> ('a \<Rightarrow> pyerr + 'b) \<Rightarrow> pyerr + 'b" where
  "ebind m f = (case m of Inl e \<Rightarrow> Inl e | Inr a \<Rightarrow> f a)"

subsection \<open>\<^verbatim>\<open>int(str)\<close>\<close>

text \<open>
  \<^verbatim>\<open>int(s)\<close> on a string strips leading and trailing whitespace, reads an optional sign
  and then decimal digits, where a single underscore may stand between two digits. Any other
  shape raises \<^verbatim>\<open>ValueError\<close>, which is \<open>None\<close> here. The whitespace that is stripped
  is tab to carriage return (9..13), the space, and the Unicode spaces above the ASCII range;
  the ASCII separators 28..31 are not stripped. Among the ASCII characters only
  \<^verbatim>\<open>0\<close>..\<^verbatim>\<open>9\<close> are digits. Python also accepts every Unicode decimal digit; which
  code points above the ASCII range are digits, and with which value, is a table of the
  interpreter and not of this program, so it is the parameter \<open>dec\<close>, read through
  \<open>digit\<close>. The interpreter's configurable limit on the number of digits is not modelled:
  exceeding it raises \<^verbatim>\<open>ValueError\<close> as well.
\<close>

type_synonym digits = "nat \<Rightarrow> nat option"

definition ascii_dec :: digits where
  "ascii_dec c = (if 48 \<le> c \<and> c \<le> 57 then Some (c - 48) else None)"

definition digit :: "digits \<Rightarrow> digits" where
  "digit dec c = (if c < 128 then ascii_dec c else dec c)"

definition py_isspace :: "nat \<Rightarrow> bool" where
  "py_isspace c \<longleftrightarrow>
     (9 \<le> c \<and> c \<le> 13) \<or> c = 32 \<or> c = 133 \<or> c = 160 \<or> c = 5760 \<or>
     (8192 \<le> c \<and> c \<le> 8202) \<or> c = 8232 \<or> c = 8233 \<or> c = 8239 \<or> c = 8287 \<or> c = 12288"

definition py_strip :: "pystr \<Rightarrow> pystr" where
  "py_strip s = rev (dropWhile py_isspace (rev (dropWhile py_isspace s)))"

fun int_digits :: "digits \<Rightarrow> nat \<Rightarrow> pystr \<Rightarrow> nat option" where
  "int_digits dec acc [] = Some acc"
| "int_digits dec acc [c] =
     (case dec c of None \<Rightarrow> None | Some v \<Rightarrow> Some (10 * acc + v))"
| "int_digits dec acc (c # d # ds) =
     (if c = 95 then
        (case dec d of None \<Rightarrow> None | Some v \<Rightarrow> int_digits dec (10 * acc + v) ds)
      else
        (case dec c of None \<Rightarrow> None | Some v \<Rightarrow> int_digits dec (10 * acc + v) (d # ds)))"

definition int_unsigned :: "digits \<Rightarrow> pystr \<Rightarrow> nat option" where
  "int_unsigned dec s =
     (case s of [] \<Rightarrow> None
      | c # cs \<Rightarrow> (case dec c of None \<Rightarrow> None | Some v \<Rightarrow> int_digits dec v cs))"

definition py_int :: "digits \<Rightarrow> pystr \<Rightarrow> int option" where
  "py_int dec s =
     (case py_strip s of
        [] \<Rightarrow> None
      | c # cs \<Rightarrow>
          if c = 45 then map_option (\<lambda>n. - int n) (int_unsigned (digit dec) cs)
          else if c = 43 then map_option int (int_unsigned (digit dec) cs)
          else map_option int (int_unsigned (digit dec) (c # cs)))"

subsection \<open>Floats\<close>

text \<open>
  A Python \<^verbatim>\<open>float\<close> is an IEEE 754 binary64 number: a finite value, which is a
  rational, or one of the three special values. \<open>fl\<close> rounds a rational to the nearest
  number with a 53-bit significand, ties to even, with the exponent not below that of the
  subnormal numbers; it is what a correctly rounded operation returns as long as the
  result does not overflow.
\<close>

datatype pyfloat = Finite rat | NaN | PosInf | NegInf

definition round_half_even :: "rat \<Rightarrow> int" where
  "round_half_even q =
     (let f = \<lfloor>q\<rfloor>; r = q - of_int f
      in if r < 1 / 2 then f else if 1 / 2 < r then f + 1 else if even f then f else f + 1)"

definition ilog2 :: "rat \<Rightarrow> int" where
  "ilog2 x = (if 1 \<le> x then bitlen \<lfloor>x\<rfloor> - 1 else - bitlen (\<lceil>1 / x\<rceil> - 1))"

definition ulp :: "rat \<Rightarrow> rat" where
  "ulp x = 2 powi (max (ilog2 \<bar>x\<bar>) (- 1022) - 52)"

definition fl :: "rat \<Rightarrow> rat" where
  "fl x = (if x = 0 then 0 else of_int (round_half_even (x / ulp x)) * ulp x)"

definition float_of :: "rat \<Rightarrow> pyfloat" where
  "float_of x =
     (let r = fl x
      in if 2 ^ 1024 \<le> r then PosInf else if r \<le> - (2 ^ 1024) then NegInf else Finite r)"

text \<open>
  \<^verbatim>\<open>a / b\<close> on two \<^verbatim>\<open>int\<close>s is the correctly rounded quotient; it raises
  \<^verbatim>\<open>ZeroDivisionError\<close> for \<^verbatim>\<open>b == 0\<close> and \<^verbatim>\<open>OverflowError\<close> when the quotient
  is too large for a float. \<^verbatim>\<open>x * 100\<close> on a float never raises: it overflows to an
  infinity.
\<close>

definition int_truediv :: "int \<Rightarrow> int \<Rightarrow> pyerr + pyfloat" where
  "int_truediv a b =
     (if b = 0 then Inl ZeroDivisionError
      else (case float_of (of_int a / of_int b) of
              Finite r \<Rightarrow> Inr (Finite r)
            | _ \<Rightarrow> Inl OverflowError))"

definition float_mul_int :: "pyfloat \<Rightarrow> int \<Rightarrow> pyfloat" where
  "float_mul_int x k =
     (case x of
        Finite q \<Rightarrow> float_of (q * of_int k)
      | NaN \<Rightarrow> NaN
      | PosInf \<Rightarrow> (if k = 0 then NaN else if 0 < k then PosInf else NegInf)
      | NegInf \<Rightarrow> (if k = 0 then NaN else if 0 < k then NegInf else PosInf))"

text \<open>
  \<^verbatim>\<open>round(x)\<close> and \<^verbatim>\<open>math.ceil(x)\<close> on a float return an \<^verbatim>\<open>int\<close>; \<^verbatim>\<open>round\<close>
  rounds half to even. Both raise \<^verbatim>\<open>ValueError\<close> on a NaN and \<^verbatim>\<open>OverflowError\<close>
  on an infinity.
\<close>

definition py_round :: "pyfloat \<Rightarrow> pyerr + int" where
  "py_round x =
     (case x of Finite q \<Rightarrow> Inr (round_half_even q) | NaN \<Rightarrow> Inl ValueError
      | _ \<Rightarrow> Inl OverflowError)"

definition math_ceil :: "pyfloat \<Rightarrow> pyerr + int" where
  "math_ceil x =
     (case x of Finite q \<Rightarrow> Inr \<lceil>q\<rceil> | NaN \<Rightarrow> Inl ValueError | _ \<Rightarrow> Inl OverflowError)"

section \<open>Interval labels\<close>

text \<open>
  \<^verbatim>\<open>clean_interval_string\<close> is a chain of five \<^verbatim>\<open>str.replace\<close> calls, each on a
  one-character pattern: U+00E2 (226), the en dash U+2013 (8211) and the em dash U+2014
  (8212) become a hyphen (45); the space (32) and the comma (44) are deleted.
\<close>

definition replace :: "nat \<Rightarrow> pystr \<Rightarrow> pystr \<Rightarrow> pystr" where
  "replace c new s = concat (map (\<lambda>x. if x = c then new else [x]) s)"

definition clean_interval_string :: "pystr \<Rightarrow> pystr" where
  "clean_interval_string interval_str =
     replace 44 [] (replace 32 [] (replace 8212 [45] (replace 8211 [45]
       (replace 226 [45] interval_str))))"

text \<open>\<^verbatim>\<open>s.split('-')\<close>: the pieces between the hyphens, always at least one piece.\<close>

fun split :: "nat \<Rightarrow> pystr \<Rightarrow> pystr list" where
  "split sep [] = [[]]"
| "split sep (c # cs) =
     (if c = sep then [] # split sep cs
      else (case split sep cs of [] \<Rightarrow> [[c]] | p # ps \<Rightarrow> (c # p) # ps))"

text \<open>
  \<^verbatim>\<open>a, b = map(int, interval_str.split('-'))\<close> succeeds when there are exactly two
  pieces and both are integers; a wrong number of pieces and a piece that is no integer both
  raise \<^verbatim>\<open>ValueError\<close>, and the handler returns \<^verbatim>\<open>(None, None)\<close>.
\<close>

definition parse_interval :: "digits \<Rightarrow> pystr \<Rightarrow> int option \<times> int option" where
  "parse_interval dec interval_str =
     (case split 45 interval_str of
        [x, y] \<Rightarrow>
          (case py_int dec x of
             None \<Rightarrow> (None, None)
           | Some a \<Rightarrow> (case py_int dec y of None \<Rightarrow> (None, None) | Some b \<Rightarrow> (Some a, Some b)))
      | _ \<Rightarrow> (None, None))"

section \<open>Distribution tables and their random-number bands\<close>

text \<open>
  A distribution table is the data frame that \<^verbatim>\<open>load_distribusi_from_excel\<close> returns:
  one row per class interval, with the six columns below. The label is what
  \<^verbatim>\<open>str(row['Interval Kelas '])\<close> gives. The empty data frame \<^verbatim>\<open>pd.DataFrame()\<close>
  is the empty list of rows.
\<close>

record row =
  No :: int
  Interval_Kelas :: pystr
  Frekuensi :: int
  Probabilitas :: pyfloat
  Prob_Kumulatif :: pyfloat
  Prob_Kumulatif_100 :: pyfloat

type_synonym table = "row list"

text \<open>
  The band loop of \<^verbatim>\<open>display_distribution_table\<close> (the column
  \<^verbatim>\<open>'Interval Angka Acak'\<close>): the lower bound starts at 0, the upper bound of a row is
  \<^verbatim>\<open>int(round(row['Prob Kumulatif * 100']))\<close>, the next lower bound is the upper bound
  plus one. The loop raises where \<^verbatim>\<open>round\<close> does.
\<close>

fun band_walk :: "int \<Rightarrow> table \<Rightarrow> pyerr + (int \<times> int) list" where
  "band_walk lower_bound [] = Inr []"
| "band_walk lower_bound (r # rows) =
     (case py_round (Prob_Kumulatif_100 r) of
        Inl e \<Rightarrow> Inl e
      | Inr upper_bound \<Rightarrow>
          (case band_walk (upper_bound + 1) rows of
             Inl e \<Rightarrow> Inl e
           | Inr bs \<Rightarrow> Inr ((lower_bound, upper_bound) # bs)))"

definition Interval_Angka_Acak :: "table \<Rightarrow> pyerr + (int \<times> int) list" where
  "Interval_Angka_Acak df = band_walk 0 df"

text \<open>
  The text written into the column:
  \<^verbatim>\<open>f"{str(lower_bound).zfill(2)} - {str(upper_bound).zfill(2)}"\<close>.
\<close>

fun nat_digits :: "nat \<Rightarrow> pystr" where
  "nat_digits n = (if n < 10 then [48 + n] else nat_digits (n div 10) @ [48 + n mod 10])"

definition py_str :: "int \<Rightarrow> pystr" where
  "py_str i = (if i < 0 then 45 # nat_digits (nat (- i)) else nat_digits (nat i))"

definition zfill :: "nat \<Rightarrow> pystr \<Rightarrow> pystr" where
  "zfill width s =
     (if width \<le> length s then s
      else (case s of
              c # cs \<Rightarrow>
                if c = 43 \<or> c = 45 then c # replicate (width - length s) 48 @ cs
                else replicate (width - length s) 48 @ s
            | [] \<Rightarrow> replicate width 48))"

definition band_text :: "int \<times> int \<Rightarrow> pystr" where
  "band_text b = zfill 2 (py_str (fst b)) @ [32, 45, 32] @ zfill 2 (py_str (snd b))"

definition Interval_Angka_Acak_text :: "table \<Rightarrow> pyerr + pystr list" where
  "Interval_Angka_Acak_text df = ebind (Interval_Angka_Acak df) (\<lambda>bs. Inr (map band_text bs))"

definition in_band :: "int \<Rightarrow> int \<times> int \<Rightarrow> bool" where
  "in_band random_number b \<longleftrightarrow> fst b \<le> random_number \<and> random_number \<le> snd b"

definition band_set :: "int \<times> int \<Rightarrow> int set" where
  "band_set b = {fst b .. snd b}"

section \<open>The interval sampler\<close>

text \<open>
  The value of a matching row, lines 171 to 176 of the source: the cleaned label is parsed;
  with both bounds present the value is \<^verbatim>\<open>math.ceil((a + b) / 2)\<close>, where the division
  is the float division of two ints, and otherwise it is 0.
\<close>

definition row_value :: "digits \<Rightarrow> row \<Rightarrow> pyerr + int" where
  "row_value dec r =
     (let interval = clean_interval_string (Interval_Kelas r)
      in case parse_interval dec interval of
           (Some a, Some b) \<Rightarrow> ebind (int_truediv (a + b) 2) math_ceil
         | _ \<Rightarrow> Inr 0)"

fun sample_loop :: "digits \<Rightarrow> int \<Rightarrow> table \<Rightarrow> int \<Rightarrow> pyerr + int" where
  "sample_loop dec lower_bound [] random_number = Inr 0"
| "sample_loop dec lower_bound (r # rows) random_number =
     (case py_round (Prob_Kumulatif_100 r) of
        Inl e \<Rightarrow> Inl e
      | Inr upper_bound \<Rightarrow>
          if lower_bound \<le> random_number \<and> random_number \<le> upper_bound
          then row_value dec r
          else sample_loop dec (upper_bound + 1) rows random_number)"

definition get_simulation_value :: "digits \<Rightarrow> table \<Rightarrow> int \<Rightarrow> pyerr + int" where
  "get_simulation_value dec df random_number = sample_loop dec 0 df random_number"

text \<open>
  The bands that the sampler's loop tests for one draw, in the order it tests them: the same
  loop, recording the pair of bounds of each comparison.
\<close>

fun tested_bands :: "int \<Rightarrow> table \<Rightarrow> int \<Rightarrow> (int \<times> int) list" where
  "tested_bands lower_bound [] random_number = []"
| "tested_bands lower_bound (r # rows) random_number =
     (case py_round (Prob_Kumulatif_100 r) of
        Inl e \<Rightarrow> []
      | Inr upper_bound \<Rightarrow>
          (lower_bound, upper_bound) #
          (if lower_bound \<le> random_number \<and> random_number \<le> upper_bound then []
           else tested_bands (upper_bound + 1) rows random_number))"

text \<open>
  A lookup in a list of displayed bands, row by row: the value of the first row whose
  displayed band holds the draw, and 0 when there is none.
\<close>

fun lookup_displayed :: "digits \<Rightarrow> (int \<times> int) list \<Rightarrow> table \<Rightarrow> int \<Rightarrow> pyerr + int" where
  "lookup_displayed dec (b # bs) (r # rows) random_number =
     (if in_band random_number b then row_value dec r
      else lookup_displayed dec bs rows random_number)"
| "lookup_displayed dec bs rows random_number = Inr 0"

text \<open>The position of the first band that holds the draw.\<close>

fun first_band :: "(int \<times> int) list \<Rightarrow> int \<Rightarrow> nat option" where
  "first_band [] random_number = None"
| "first_band (b # bs) random_number =
     (if in_band random_number b then Some 0
      else map_option Suc (first_band bs random_number))"

section \<open>The simulation engine\<close>

text \<open>
  What \<^verbatim>\<open>run_monte_carlo_simulation\<close> can read or change besides its result: the
  dictionary of tables it is given, the random source and the progress bar. The random source
  is a tape of numbers and the count of calls made so far; \<^verbatim>\<open>random.randint(0, 99)\<close>
  reads the next number of the tape into the range 0..99. The progress bar is the list of
  calls made on it.
\<close>

datatype bar_event = Bar_progress pyfloat | Bar_empty

record world =
  distribusi_dict :: "string \<rightharpoonup> table"
  rng :: "nat \<Rightarrow> nat"
  rng_calls :: nat
  bar :: "bar_event list"

definition randint_0_99 :: "world \<Rightarrow> int \<times> world" where
  "randint_0_99 w = (int (rng w (rng_calls w) mod 100), w\<lparr>rng_calls := Suc (rng_calls w)\<rparr>)"

text \<open>\<^verbatim>\<open>distribusi_dict.get(k, pd.DataFrame())\<close>\<close>

definition dict_get :: "(string \<rightharpoonup> table) \<Rightarrow> string \<Rightarrow> table" where
  "dict_get d k = (case d k of None \<Rightarrow> [] | Some df \<Rightarrow> df)"

record period =
  Periode :: int
  Angka_Acak_A :: int
  Angka_Acak_B :: int
  Angka_Acak_AB :: int
  Angka_Acak_O :: int
  Simulasi_A :: int
  Simulasi_B :: int
  Simulasi_AB :: int
  Simulasi_O :: int
  Total_Simulasi :: int
  Pmk_A :: pyfloat
  Pmk_B :: pyfloat
  Pmk_AB :: pyfloat
  Pmk_O :: pyfloat

text \<open>
  \<^verbatim>\<open>(sim / total_sim * 100) if total_sim else 0\<close>. The \<^verbatim>\<open>int\<close> 0 of the second
  branch is written as the float of the same value, which is what the column of the result
  frame holds.
\<close>

definition share :: "int \<Rightarrow> int \<Rightarrow> pyerr + pyfloat" where
  "share sim total_sim =
     (if total_sim \<noteq> 0
      then ebind (int_truediv sim total_sim) (\<lambda>q. Inr (float_mul_int q 100))
      else Inr (Finite 0))"

text \<open>The body of the loop after the four draws, lines 204 to 232.\<close>

definition simulate_period ::
  "digits \<Rightarrow> (string \<rightharpoonup> table) \<Rightarrow> int \<Rightarrow> int \<Rightarrow> int \<Rightarrow> int \<Rightarrow> int \<Rightarrow> pyerr + period" where
  "simulate_period dec d i a_acak b_acak ab_acak o_acak =
     ebind (get_simulation_value dec (dict_get d ''A'') a_acak) (\<lambda>sim_a.
     ebind (get_simulation_value dec (dict_get d ''B'') b_acak) (\<lambda>sim_b.
     ebind (get_simulation_value dec (dict_get d ''AB'') ab_acak) (\<lambda>sim_ab.
     ebind (get_simulation_value dec (dict_get d ''O'') o_acak) (\<lambda>sim_o.
     let total_sim = sim_a + sim_b + sim_ab + sim_o in
     ebind (share sim_a total_sim) (\<lambda>pa.
     ebind (share sim_b total_sim) (\<lambda>pb.
     ebind (share sim_ab total_sim) (\<lambda>pab.
     ebind (share sim_o total_sim) (\<lambda>po.
     Inr \<lparr>Periode = i + 1,
          Angka_Acak_A = a_acak, Angka_Acak_B = b_acak,
          Angka_Acak_AB = ab_acak, Angka_Acak_O = o_acak,
          Simulasi_A = sim_a, Simulasi_B = sim_b, Simulasi_AB = sim_ab, Simulasi_O = sim_o,
          Total_Simulasi = total_sim,
          Pmk_A = pa, Pmk_B = pb, Pmk_AB = pab, Pmk_O = po\<rparr>))))))))"

text \<open>
  The decorator \<^verbatim>\<open>st.cache_data\<close> stores the result of a call for later calls with
  the same arguments; what is modelled is the body that computes the result.
\<close>

text \<open>
  \<^verbatim>\<open>for i in range(num_simulations)\<close>: \<open>k\<close> counts the iterations that remain,
  \<open>i\<close> is the loop variable. An exception leaves the loop with the world as it is at
  that point.
\<close>

fun run_loop ::
  "digits \<Rightarrow> int \<Rightarrow> nat \<Rightarrow> int \<Rightarrow> period list \<Rightarrow> world \<Rightarrow> (pyerr + period list) \<times> world" where
  "run_loop dec num_simulations 0 i simulation_results w = (Inr simulation_results, w)"
| "run_loop dec num_simulations (Suc k) i simulation_results w =
     (case randint_0_99 w of (a_acak, w1) \<Rightarrow>
      case randint_0_99 w1 of (b_acak, w2) \<Rightarrow>
      case randint_0_99 w2 of (ab_acak, w3) \<Rightarrow>
      case randint_0_99 w3 of (o_acak, w4) \<Rightarrow>
      (case simulate_period dec (distribusi_dict w4) i a_acak b_acak ab_acak o_acak of
         Inl e \<Rightarrow> (Inl e, w4)
       | Inr p \<Rightarrow>
           (case int_truediv (i + 1) num_simulations of
              Inl e \<Rightarrow> (Inl e, w4)
            | Inr f \<Rightarrow>
                run_loop dec num_simulations k (i + 1) (simulation_results @ [p])
                  (w4\<lparr>bar := bar w4 @ [Bar_progress f]\<rparr>))))"

definition run_monte_carlo_simulation ::
  "digits \<Rightarrow> int \<Rightarrow> world \<Rightarrow> (pyerr + period list) \<times> world" where
  "run_monte_carlo_simulation dec num_simulations w =
     (case run_loop dec num_simulations (nat num_simulations) 0 []
             (w\<lparr>bar := bar w @ [Bar_progress (Finite 0)]\<rparr>) of
        (Inl e, w') \<Rightarrow> (Inl e, w')
      | (Inr simulation_results, w') \<Rightarrow>
          (Inr simulation_results, w'\<lparr>bar := bar w' @ [Bar_empty]\<rparr>))"

text \<open>
  The handler of the run button in the main program, lines 495 to 511: the text of the input
  field is converted with \<^verbatim>\<open>int\<close>; a text that is no integer and a number that is not
  positive are reported with \<^verbatim>\<open>st.error\<close>, and only a positive number reaches
  \<^verbatim>\<open>run_monte_carlo_simulation\<close>.
\<close>

datatype outcome = Error_not_integer | Error_not_positive | Simulated "pyerr + period list"

definition jalankan_simulasi :: "digits \<Rightarrow> pystr \<Rightarrow> world \<Rightarrow> outcome \<times> world" where
  "jalankan_simulasi dec num_simulations_str w =
     (case py_int dec num_simulations_str of
        None \<Rightarrow> (Error_not_integer, w)
      | Some num_simulations_input \<Rightarrow>
          if num_simulations_input \<le> 0 then (Error_not_positive, w)
          else (case run_monte_carlo_simulation dec num_simulations_input w of
                  (r, w') \<Rightarrow> (Simulated r, w')))"

section \<open>The periods of highest and lowest total\<close>

text \<open>
  \<^verbatim>\<open>sim_df['Total Simulasi'].idxmax()\<close> is the label of the first row that holds the
  maximum of the column, and \<^verbatim>\<open>idxmin\<close> likewise for the minimum; the labels of the
  result frame are the positions 0, 1, ... The scan keeps the best position seen so far and
  replaces it only by a strictly better value. The totals are Python integers here, without
  the 64-bit bound of a numeric column.
\<close>

fun idx_scan :: "(int \<Rightarrow> int \<Rightarrow> bool) \<Rightarrow> nat \<Rightarrow> int \<Rightarrow> nat \<Rightarrow> int list \<Rightarrow> nat" where
  "idx_scan better best_i best_v i [] = best_i"
| "idx_scan better best_i best_v i (x # xs) =
     (if better x best_v then idx_scan better i x (Suc i) xs
      else idx_scan better best_i best_v (Suc i) xs)"

definition idxmax :: "int list \<Rightarrow> nat" where
  "idxmax xs = (case xs of [] \<Rightarrow> 0 | x # xs' \<Rightarrow> idx_scan (\<lambda>a b. b < a) 0 x 1 xs')"

definition idxmin :: "int list \<Rightarrow> nat" where
  "idxmin xs = (case xs of [] \<Rightarrow> 0 | x # xs' \<Rightarrow> idx_scan (\<lambda>a b. a < b) 0 x 1 xs')"

text \<open>
  The two rows that \<^verbatim>\<open>perform_summary_analysis\<close> reports, lines 255 to 257; \<open>None\<close> is
  the branch of the empty frame, which reports that there is no data.
\<close>

definition perform_summary_analysis :: "period list \<Rightarrow> (period \<times> period) option" where
  "perform_summary_analysis sim_df =
     (if sim_df \<noteq> []
      then Some (sim_df ! idxmax (map Total_Simulasi sim_df),
                 sim_df ! idxmin (map Total_Simulasi sim_df))
      else None)"

section \<open>Well-formed tables and example inputs\<close>

text \<open>
  A row is usable when its cumulative percentage is a number and the value of its interval
  can be computed, that is, the float division in it does not overflow.
\<close>

definition is_finite :: "pyfloat \<Rightarrow> bool" where
  "is_finite x = (case x of Finite q \<Rightarrow> True | _ \<Rightarrow> False)"

definition returns :: "pyerr + 'a \<Rightarrow> bool" where
  "returns m = (case m of Inl e \<Rightarrow> False | Inr a \<Rightarrow> True)"

definition row_ok :: "digits \<Rightarrow> row \<Rightarrow> bool" where
  "row_ok dec r \<longleftrightarrow> is_finite (Prob_Kumulatif_100 r) \<and> returns (row_value dec r)"

definition table_ok :: "digits \<Rightarrow> table \<Rightarrow> bool" where
  "table_ok dec df \<longleftrightarrow> list_all (row_ok dec) df"

definition tables_ok :: "digits \<Rightarrow> (string \<rightharpoonup> table) \<Rightarrow> bool" where
  "tables_ok dec d \<longleftrightarrow>
     table_ok dec (dict_get d ''A'') \<and> table_ok dec (dict_get d ''B'') \<and>
     table_ok dec (dict_get d ''AB'') \<and> table_ok dec (dict_get d ''O'')"

definition mk_row :: "int \<Rightarrow> pystr \<Rightarrow> rat \<Rightarrow> row" where
  "mk_row n label cum =
     \<lparr>No = n, Interval_Kelas = label, Frekuensi = 1, Probabilitas = Finite (1 / 4),
      Prob_Kumulatif = Finite (cum / 100), Prob_Kumulatif_100 = Finite cum\<rparr>"

definition table_A :: table where
  "table_A = [mk_row 1 (ascii ''103'' @ [8211] @ ascii ''130'') 25,
              mk_row 2 (ascii ''131 - 158'') (125 / 2),
              mk_row 3 (ascii ''abc'') 80,
              mk_row 4 (ascii ''1,187-1,214'') 98]"

definition table_nan :: table where
  "table_nan = [(mk_row 1 (ascii ''1-10'') 100)\<lparr>Prob_Kumulatif_100 := NaN\<rparr>]"

text \<open>A row whose label does not parse, followed by a row with a NaN.\<close>

definition table_abc_nan :: table where
  "table_abc_nan = [mk_row 1 (ascii ''abc'') 50,
                    (mk_row 2 (ascii ''1-10'') 100)\<lparr>Prob_Kumulatif_100 := NaN\<rparr>]"

text \<open>A table whose only interval starts at 10 to the power 400, written with 401 digits.\<close>

definition table_huge :: table where
  "table_huge = [mk_row 1 (49 # replicate 400 48 @ [45, 53]) 100]"

definition dict_A :: "string \<rightharpoonup> table" where
  "dict_A = [''A'' \<mapsto> table_A, ''B'' \<mapsto> []]"

definition dict_nan :: "string \<rightharpoonup> table" where
  "dict_nan = [''A'' \<mapsto> table_nan]"

definition world_of :: "(string \<rightharpoonup> table) \<Rightarrow> world" where
  "world_of d = \<lparr>distribusi_dict = d, rng = (\<lambda>n. 37 * n + 11), rng_calls = 0, bar = []\<rparr>"

text \<open>
  What a record of the result owes to the tables: each sampled value is the sampler's value
  for the draw of its category, the total is the sum of the four sampled values, and each
  share is computed from its sampled value and the total.
\<close>

definition period_ok :: "digits \<Rightarrow> (string \<rightharpoonup> table) \<Rightarrow> period \<Rightarrow> bool" where
  "period_ok dec d p \<longleftrightarrow>
     get_simulation_value dec (dict_get d ''A'') (Angka_Acak_A p) = Inr (Simulasi_A p) \<and>
     get_simulation_value dec (dict_get d ''B'') (Angka_Acak_B p) = Inr (Simulasi_B p) \<and>
     get_simulation_value dec (dict_get d ''AB'') (Angka_Acak_AB p) = Inr (Simulasi_AB p) \<and>
     get_simulation_value dec (dict_get d ''O'') (Angka_Acak_O p) = Inr (Simulasi_O p) \<and>
     Total_Simulasi p = Simulasi_A p + Simulasi_B p + Simulasi_AB p + Simulasi_O p \<and>
     share (Simulasi_A p) (Total_Simulasi p) = Inr (Pmk_A p) \<and>
     share (Simulasi_B p) (Total_Simulasi p) = Inr (Pmk_B p) \<and>
     share (Simulasi_AB p) (Total_Simulasi p) = Inr (Pmk_AB p) \<and>
     share (Simulasi_O p) (Total_Simulasi p) = Inr (Pmk_O p)"

text \<open>The draw that the \<open>j\<close>-th next call of the random source returns.\<close>

definition draw_at :: "world \<Rightarrow> nat \<Rightarrow> int" where
  "draw_at w j = int (rng w (rng_calls w + j) mod 100)"

definition mk_period :: "int \<Rightarrow> int \<Rightarrow> period" where
  "mk_period n t =
     \<lparr>Periode = n, Angka_Acak_A = 0, Angka_Acak_B = 0, Angka_Acak_AB = 0, Angka_Acak_O = 0,
      Simulasi_A = t, Simulasi_B = 0, Simulasi_AB = 0, Simulasi_O = 0, Total_Simulasi = t,
      Pmk_A = (if t = 0 then Finite 0 else Finite 100), Pmk_B = Finite 0, Pmk_AB = Finite 0,
      Pmk_O = Finite 0\<rparr>"

definition example_periods :: "period list" where
  "example_periods = [mk_period 1 5, mk_period 2 9, mk_period 3 9, mk_period 4 5]"


text \<open>The period that one run over \<open>dict_A\<close> produces, and the one over no tables.\<close>

definition period_A :: period where
  "period_A =
     \<lparr>Periode = 1, Angka_Acak_A = 11, Angka_Acak_B = 48, Angka_Acak_AB = 85, Angka_Acak_O = 22,
      Simulasi_A = 117, Simulasi_B = 0, Simulasi_AB = 0, Simulasi_O = 0, Total_Simulasi = 117,
      Pmk_A = Finite 100, Pmk_B = Finite 0, Pmk_AB = Finite 0, Pmk_O = Finite 0\<rparr>"


section \<open>The tables as objects in a store\<close>

text \<open>
  The functions above take a table as a value. In the program a table is a
  \<^verbatim>\<open>DataFrame\<close> object, the dictionary holds references to such objects, and the sampler
  is handed a reference. To state what a run does to the objects it is given, the sampler
  and the run are written a second time over an explicit store. The store holds the
  \<^verbatim>\<open>DataFrame\<close> objects and the \<^verbatim>\<open>Series\<close> objects that exist; the address of an
  object is its position, and a new object is placed at the end. A run could change a table
  of the caller in two ways: by writing to the frame at an address that exists, or by
  binding a key of the dictionary to another address.

  Each operation that the two functions apply to a table or to the dictionary is a step on
  the store, as pandas and \<^verbatim>\<open>dict\<close> document it. \<^verbatim>\<open>pd.DataFrame()\<close> makes a new
  empty frame. \<^verbatim>\<open>df.iterrows()\<close> makes, for each row in order, a new \<^verbatim>\<open>Series\<close> with
  the values of the row; \<^verbatim>\<open>row['...']\<close> reads that \<^verbatim>\<open>Series\<close>.
  \<^verbatim>\<open>distribusi_dict.get(k, pd.DataFrame())\<close> evaluates its second argument, which makes
  the empty frame whether or not the key is present, and then reads the dictionary.
\<close>

record store =
  frames :: "table list"
  series :: "row list"

definition DataFrame_new :: "store \<Rightarrow> nat \<times> store" where
  "DataFrame_new s = (length (frames s), s\<lparr>frames := frames s @ [[]]\<rparr>)"

text \<open>
  Reading the frame at an address. Addresses come from \<open>DataFrame_new\<close> and from the
  dictionary; at a position where the store has no object the rows read are none.
\<close>

definition frame_at :: "store \<Rightarrow> nat \<Rightarrow> table" where
  "frame_at s a = (if a < length (frames s) then frames s ! a else [])"

definition Series_new :: "row \<Rightarrow> store \<Rightarrow> nat \<times> store" where
  "Series_new r s = (length (series s), s\<lparr>series := series s @ [r]\<rparr>)"

definition series_at :: "store \<Rightarrow> nat \<Rightarrow> row" where
  "series_at s a = series s ! a"

text \<open>
  \<^verbatim>\<open>get_simulation_value\<close>, lines 167 to 178, on a reference to a frame: the loop takes the
  rows of the frame as they are when \<^verbatim>\<open>iterrows\<close> is called, makes the \<^verbatim>\<open>Series\<close> of a
  row when it reaches the row, and reads the cumulative percentage and the label from it.
\<close>

fun sample_loop_ref ::
  "digits \<Rightarrow> int \<Rightarrow> row list \<Rightarrow> int \<Rightarrow> store \<Rightarrow> (pyerr + int) \<times> store" where
  "sample_loop_ref dec lower_bound [] random_number s = (Inr 0, s)"
| "sample_loop_ref dec lower_bound (r # rows) random_number s =
     (case Series_new r s of (row_obj, s') \<Rightarrow>
        (case py_round (Prob_Kumulatif_100 (series_at s' row_obj)) of
           Inl e \<Rightarrow> (Inl e, s')
         | Inr upper_bound \<Rightarrow>
             if lower_bound \<le> random_number \<and> random_number \<le> upper_bound
             then (row_value dec (series_at s' row_obj), s')
             else sample_loop_ref dec (upper_bound + 1) rows random_number s'))"

definition get_simulation_value_ref ::
  "digits \<Rightarrow> nat \<Rightarrow> int \<Rightarrow> store \<Rightarrow> (pyerr + int) \<times> store" where
  "get_simulation_value_ref dec df random_number s =
     sample_loop_ref dec 0 (frame_at s df) random_number s"

text \<open>
  The world of a run over the store: the store, the dictionary from category names to
  addresses of frames, the random source and the progress bar.
\<close>

record ref_world =
  store :: store
  tables_ref :: "string \<rightharpoonup> nat"
  ref_rng :: "nat \<Rightarrow> nat"
  ref_rng_calls :: nat
  ref_bar :: "bar_event list"

definition randint_ref :: "ref_world \<Rightarrow> int \<times> ref_world" where
  "randint_ref w =
     (int (ref_rng w (ref_rng_calls w) mod 100), w\<lparr>ref_rng_calls := Suc (ref_rng_calls w)\<rparr>)"

text \<open>
  One call \<^verbatim>\<open>get_simulation_value(distribusi_dict.get(k, pd.DataFrame()), acak)\<close> of
  lines 204 to 207.
\<close>

definition sample_category ::
  "digits \<Rightarrow> string \<Rightarrow> int \<Rightarrow> ref_world \<Rightarrow> (pyerr + int) \<times> ref_world" where
  "sample_category dec k acak w =
     (case DataFrame_new (store w) of (empty_df, s1) \<Rightarrow>
        (case get_simulation_value_ref dec
                (case tables_ref w k of None \<Rightarrow> empty_df | Some df \<Rightarrow> df) acak s1 of
           (v, s2) \<Rightarrow> (v, w\<lparr>store := s2\<rparr>)))"

text \<open>Lines 209 to 231: the total, the four shares and the record of the period.\<close>

definition period_record ::
  "int \<Rightarrow> int \<Rightarrow> int \<Rightarrow> int \<Rightarrow> int \<Rightarrow> int \<Rightarrow> int \<Rightarrow> int \<Rightarrow> int \<Rightarrow> pyerr + period" where
  "period_record i a_acak b_acak ab_acak o_acak sim_a sim_b sim_ab sim_o =
     (let total_sim = sim_a + sim_b + sim_ab + sim_o in
      ebind (share sim_a total_sim) (\<lambda>pa.
      ebind (share sim_b total_sim) (\<lambda>pb.
      ebind (share sim_ab total_sim) (\<lambda>pab.
      ebind (share sim_o total_sim) (\<lambda>po.
      Inr \<lparr>Periode = i + 1,
           Angka_Acak_A = a_acak, Angka_Acak_B = b_acak,
           Angka_Acak_AB = ab_acak, Angka_Acak_O = o_acak,
           Simulasi_A = sim_a, Simulasi_B = sim_b, Simulasi_AB = sim_ab, Simulasi_O = sim_o,
           Total_Simulasi = total_sim,
           Pmk_A = pa, Pmk_B = pb, Pmk_AB = pab, Pmk_O = po\<rparr>)))))"

definition simulate_period_ref ::
  "digits \<Rightarrow> int \<Rightarrow> int \<Rightarrow> int \<Rightarrow> int \<Rightarrow> int \<Rightarrow> ref_world \<Rightarrow> (pyerr + period) \<times> ref_world" where
  "simulate_period_ref dec i a_acak b_acak ab_acak o_acak w =
     (case sample_category dec ''A'' a_acak w of
        (Inl e, w1) \<Rightarrow> (Inl e, w1)
      | (Inr sim_a, w1) \<Rightarrow>
     (case sample_category dec ''B'' b_acak w1 of
        (Inl e, w2) \<Rightarrow> (Inl e, w2)
      | (Inr sim_b, w2) \<Rightarrow>
     (case sample_category dec ''AB'' ab_acak w2 of
        (Inl e, w3) \<Rightarrow> (Inl e, w3)
      | (Inr sim_ab, w3) \<Rightarrow>
     (case sample_category dec ''O'' o_acak w3 of
        (Inl e, w4) \<Rightarrow> (Inl e, w4)
      | (Inr sim_o, w4) \<Rightarrow>
          (period_record i a_acak b_acak ab_acak o_acak sim_a sim_b sim_ab sim_o, w4)))))"

fun run_loop_ref ::
  "digits \<Rightarrow> int \<Rightarrow> nat \<Rightarrow> int \<Rightarrow> period list \<Rightarrow> ref_world \<Rightarrow> (pyerr + period list) \<times> ref_world" where
  "run_loop_ref dec num_simulations 0 i simulation_results w = (Inr simulation_results, w)"
| "run_loop_ref dec num_simulations (Suc k) i simulation_results w =
     (case randint_ref w of (a_acak, w1) \<Rightarrow>
      case randint_ref w1 of (b_acak, w2) \<Rightarrow>
      case randint_ref w2 of (ab_acak, w3) \<Rightarrow>
      case randint_ref w3 of (o_acak, w4) \<Rightarrow>
      (case simulate_period_ref dec i a_acak b_acak ab_acak o_acak w4 of
         (Inl e, w5) \<Rightarrow> (Inl e, w5)
       | (Inr p, w5) \<Rightarrow>
           (case int_truediv (i + 1) num_simulations of
              Inl e \<Rightarrow> (Inl e, w5)
            | Inr f \<Rightarrow>
                run_loop_ref dec num_simulations k (i + 1) (simulation_results @ [p])
                  (w5\<lparr>ref_bar := ref_bar w5 @ [Bar_progress f]\<rparr>))))"

definition run_monte_carlo_simulation_ref ::
  "digits \<Rightarrow> int \<Rightarrow> ref_world \<Rightarrow> (pyerr + period list) \<times> ref_world" where
  "run_monte_carlo_simulation_ref dec num_simulations w =
     (case run_loop_ref dec num_simulations (nat num_simulations) 0 []
             (w\<lparr>ref_bar := ref_bar w @ [Bar_progress (Finite 0)]\<rparr>) of
        (Inl e, w') \<Rightarrow> (Inl e, w')
      | (Inr simulation_results, w') \<Rightarrow>
          (Inr simulation_results, w'\<lparr>ref_bar := ref_bar w' @ [Bar_empty]\<rparr>))"

text \<open>
  The tables that a world over the store denotes: the dictionary from category names to the
  rows of the frames they refer to. With it a world over the store is read as a world of
  the functions on values.
\<close>

definition tables_of :: "ref_world \<Rightarrow> (string \<rightharpoonup> table)" where
  "tables_of w k = map_option (frame_at (store w)) (tables_ref w k)"

definition world_view :: "ref_world \<Rightarrow> world" where
  "world_view w =
     \<lparr>distribusi_dict = tables_of w, rng = ref_rng w, rng_calls = ref_rng_calls w,
      bar = ref_bar w\<rparr>"

text \<open>
  A step only allocates when every frame that existed is still there, at its address and
  with its rows, and the frames that were added are empty. A step keeps a world when it
  only allocates and leaves the dictionary, the random source and the progress bar as they
  were.
\<close>

definition allocates_only :: "store \<Rightarrow> store \<Rightarrow> bool" where
  "allocates_only s s' \<longleftrightarrow>
     frames s' = frames s @ replicate (length (frames s') - length (frames s)) []"

definition keeps :: "ref_world \<Rightarrow> ref_world \<Rightarrow> bool" where
  "keeps w w' \<longleftrightarrow>
     tables_ref w' = tables_ref w \<and> allocates_only (store w) (store w') \<and>
     ref_rng w' = ref_rng w \<and> ref_rng_calls w' = ref_rng_calls w \<and> ref_bar w' = ref_bar w"

text \<open>
  An example: the table of category A at address 0, an empty table of category B at address
  1, no table for AB and O.
\<close>

definition ref_world_A :: ref_world where
  "ref_world_A =
     \<lparr>store = \<lparr>frames = [table_A, []], series = []\<rparr>,
      tables_ref = [''A'' \<mapsto> 0, ''B'' \<mapsto> 1],
      ref_rng = (\<lambda>n. 37 * n + 11), ref_rng_calls = 0, ref_bar = []\<rparr>"

section \<open>Evaluating floors and ceilings of rational literals\<close>

lemma floor_rat_numeral [simp]:
  "\<lfloor>numeral a / numeral b :: rat\<rfloor> = numeral a div numeral b"
  using floor_divide_of_int_eq [of "numeral a" "numeral b", where ?'a = rat] by simp

lemma floor_rat_neg_numeral [simp]:
  "\<lfloor>- (numeral a / numeral b) :: rat\<rfloor> = - numeral a div numeral b"
  using floor_divide_of_int_eq [of "- numeral a" "numeral b", where ?'a = rat] by simp

lemma ceiling_rat_numeral [simp]:
  "\<lceil>numeral a / numeral b :: rat\<rceil> = - (- numeral a div numeral b)"
  by (simp add: ceiling_def)

lemma digit_ascii_dec [simp]: "digit ascii_dec = ascii_dec"
  by (rule ext) (simp add: digit_def ascii_dec_def)

lemma round_half_even_int [simp]: "round_half_even (of_int n) = n"
  by (simp add: round_half_even_def)

lemma round_half_even_numeral [simp]: "round_half_even (numeral n) = numeral n"
  using round_half_even_int [of "numeral n"] by simp

section \<open>Interval labels: the example of the docstring\<close>

text \<open>
  Claim C2. The docstring of \<^verbatim>\<open>clean_interval_string\<close> gives the label made of
  \<^verbatim>\<open>103\<close>, U+00E2, a hyphen and \<^verbatim>\<open>130\<close> as an example that is cleaned to
  \<^verbatim>\<open>103-130\<close>. The code replaces U+00E2 by a hyphen and keeps the hyphen that follows
  it, so the cleaned label has two hyphens, \<^verbatim>\<open>split('-')\<close> gives three pieces,
  \<^verbatim>\<open>parse_interval\<close> returns \<^verbatim>\<open>(None, None)\<close> and a row with this label has the
  value 0, not the midpoint 117.
\<close>

theorem clean_docstring_example:
  "clean_interval_string (ascii ''103'' @ [226] @ ascii ''-130'') = ascii ''103--130'' \<and>
   parse_interval dec (ascii ''103--130'') = (None, None) \<and>
   row_value dec (mk_row 1 (ascii ''103'' @ [226] @ ascii ''-130'') 100) = Inr 0"
  by (simp add: clean_interval_string_def replace_def ascii_def parse_interval_def row_value_def mk_row_def)

text \<open>
  With a single dash of any of the three kinds the label is read as the claim expects, and the
  value of the row is the midpoint 117.
\<close>

lemma int_truediv_233: "int_truediv 233 2 = Inr (Finite (233 / 2))"
proof -
  have l: "ilog2 (233 / 2) = 6" unfolding ilog2_def by code_simp
  have u: "ulp (233 / 2) = 1 / 2 ^ 46"
    unfolding ulp_def by (simp add: l power_int_minus_divide)
  have f: "fl (233 / 2) = 233 / 2"
    unfolding fl_def u by (simp add: round_half_even_def)
  show ?thesis unfolding int_truediv_def float_of_def by (simp add: f)
qed

lemma midpoint_103_130:
  "clean_interval_string (ascii ''103'' @ [8211] @ ascii ''130'') = ascii ''103-130'' \<and>
   parse_interval ascii_dec (ascii ''103-130'') = (Some 103, Some 130) \<and>
   row_value ascii_dec (mk_row 1 (ascii ''103'' @ [8211] @ ascii ''130'') 100) = Inr 117"
proof -
  have c: "clean_interval_string (ascii ''103'' @ [8211] @ ascii ''130'') = ascii ''103-130''"
    by (simp add: clean_interval_string_def replace_def ascii_def)
  have p: "parse_interval ascii_dec (ascii ''103-130'') = (Some 103, Some 130)"
    by (simp add: parse_interval_def ascii_def py_int_def py_strip_def py_isspace_def
        int_unsigned_def ascii_dec_def)
  show ?thesis
    using c p by (simp add: row_value_def mk_row_def int_truediv_233 ebind_def math_ceil_def)
qed

section \<open>A period count that is not positive\<close>

text \<open>
  Claim C1, as amended. \<^verbatim>\<open>run_monte_carlo_simulation\<close> does not fail on a period count
  that is zero or negative: the loop over \<^verbatim>\<open>range(num_simulations)\<close> is empty, so the
  function makes no random draw, touches only the progress bar and returns the empty result.
  The rejection is in the handler of the run button, which reports the error and does not
  call the function.
\<close>

theorem run_nonpositive:
  "num \<le> 0 \<longrightarrow>
     run_monte_carlo_simulation dec num w
       = (Inr [], w\<lparr>bar := bar w @ [Bar_progress (Finite 0), Bar_empty]\<rparr>) \<and>
     (py_int dec s = Some num \<longrightarrow> jalankan_simulasi dec s w = (Error_not_positive, w))"
  by (simp add: run_monte_carlo_simulation_def jalankan_simulasi_def)

theorem run_nonpositive_witness:
  "(- 2 :: int) \<le> 0 \<and>
   run_monte_carlo_simulation ascii_dec (- 2) (world_of dict_A)
     = (Inr [], (world_of dict_A)\<lparr>bar := bar (world_of dict_A) @ [Bar_progress (Finite 0), Bar_empty]\<rparr>) \<and>
   py_int ascii_dec (ascii ''-2'') = Some (- 2) \<and>
   jalankan_simulasi ascii_dec (ascii ''-2'') (world_of dict_A)
     = (Error_not_positive, world_of dict_A)"
proof -
  have h: "py_int ascii_dec (ascii ''-2'') = Some (- 2)"
    by (simp add: ascii_def py_int_def py_strip_def py_isspace_def int_unsigned_def ascii_dec_def)
  show ?thesis
    using h run_nonpositive [of "- 2" ascii_dec "world_of dict_A" "ascii ''-2''"] by simp
qed

text \<open>The claim as it is written fails: the run returns, with an empty result.\<close>

theorem run_nonpositive_returns:
  "fst (run_monte_carlo_simulation ascii_dec (- 2) (world_of dict_A)) = Inr []"
  by (simp add: run_monte_carlo_simulation_def)

section \<open>The sampler and the displayed bands\<close>

text \<open>
  \<^verbatim>\<open>int\<close> strips the white space of \<^verbatim>\<open>str.isspace\<close>, to which the separators U+001C
  to U+001F do not belong for this purpose: \<^verbatim>\<open>int('1\x1f')\<close> raises.
\<close>

lemma int_rejects_unit_separator:
  "py_int dec [49, 31] = None \<and> py_int dec [49, 32] = Some 1"
  by (simp add: py_int_def py_strip_def py_isspace_def int_unsigned_def digit_def ascii_dec_def)

lemma sample_loop_lookup:
  "band_walk lo df = Inr bs \<Longrightarrow> sample_loop dec lo df d = lookup_displayed dec bs df d"
proof (induction df arbitrary: lo bs)
  case Nil
  then show ?case by simp
next
  case (Cons r rows)
  then show ?case
    by (auto simp: in_band_def split: sum.splits)
qed

lemma lookup_no_band:
  "\<forall>b\<in>set bs. \<not> in_band d b \<Longrightarrow> lookup_displayed dec bs df d = Inr 0"
  by (induction dec bs df d rule: lookup_displayed.induct) auto

lemma lookup_first_band:
  "first_band bs d = Some i \<Longrightarrow> length bs = length df \<Longrightarrow>
   lookup_displayed dec bs df d = row_value dec (df ! i)"
proof (induction dec bs df d arbitrary: i rule: lookup_displayed.induct)
  case (1 dec b bs r rows d)
  then show ?case by (auto split: if_splits)
qed auto

lemma band_walk_length: "band_walk lo df = Inr bs \<Longrightarrow> length bs = length df"
  by (induction df arbitrary: lo bs) (auto split: sum.splits)

lemma first_band_less: "first_band bs d = Some i \<Longrightarrow> i < length bs \<and> in_band d (bs ! i)"
  by (induction bs arbitrary: i) (auto split: if_splits)

lemma row_value_parse_fail:
  "parse_interval dec (clean_interval_string (Interval_Kelas r)) = (None, None) \<Longrightarrow>
   row_value dec r = Inr 0"
  by (simp add: row_value_def)

lemma bands_table_A: "Interval_Angka_Acak table_A = Inr [(0, 25), (26, 62), (63, 80), (81, 98)]"
  by (simp add: Interval_Angka_Acak_def table_A_def mk_row_def py_round_def round_half_even_def
      Let_def)

text \<open>
  Where the sampler returns 0. The bands are those of the display loop over the first \<open>k\<close>
  rows of the table, for any \<open>k\<close>, so that nothing is asked of the rows that the sampler
  does not reach. The sampler returns 0 for the empty table; for a draw that no band of the
  table holds, when every cumulative percentage of the table can be rounded; and for a draw
  whose first band belongs to a row whose label does not parse, whatever the rows after it.
  It raises when it reaches a row whose cumulative percentage cannot be rounded, that is,
  when no band of the rows before it holds the draw.
\<close>

lemma sample_loop_prefix:
  "band_walk lo (take k df) = Inr bs \<Longrightarrow> first_band bs d = Some i \<Longrightarrow>
   sample_loop dec lo df d = row_value dec (df ! i)"
proof (induction df arbitrary: lo k bs i)
  case Nil
  then show ?case by simp
next
  case (Cons r rows)
  show ?case
  proof (cases k)
    case 0
    with Cons.prems show ?thesis by simp
  next
    case (Suc k')
    with Cons.prems obtain ub bs' where u: "py_round (Prob_Kumulatif_100 r) = Inr ub"
      and w: "band_walk (ub + 1) (take k' rows) = Inr bs'" and b: "bs = (lo, ub) # bs'"
      by (auto split: sum.splits)
    show ?thesis
    proof (cases "in_band d (lo, ub)")
      case True
      with Cons.prems(2) b have "i = 0" by simp
      with True u show ?thesis by (simp add: in_band_def)
    next
      case False
      with Cons.prems(2) b obtain j where j: "first_band bs' d = Some j" "i = Suc j" by auto
      from Cons.IH [OF w j(1)] False u j(2) show ?thesis by (auto simp: in_band_def)
    qed
  qed
qed

lemma sample_loop_raises:
  "band_walk lo (take k df) = Inr bs \<Longrightarrow> \<forall>b\<in>set bs. \<not> in_band d b \<Longrightarrow> k < length df \<Longrightarrow>
   py_round (Prob_Kumulatif_100 (df ! k)) = Inl e \<Longrightarrow> sample_loop dec lo df d = Inl e"
proof (induction df arbitrary: lo k bs)
  case Nil
  then show ?case by simp
next
  case (Cons r rows)
  show ?case
  proof (cases k)
    case 0
    with Cons.prems show ?thesis by simp
  next
    case (Suc k')
    with Cons.prems obtain ub bs' where u: "py_round (Prob_Kumulatif_100 r) = Inr ub"
      and w: "band_walk (ub + 1) (take k' rows) = Inr bs'" and b: "bs = (lo, ub) # bs'"
      by (auto split: sum.splits)
    from Cons.prems(2) b have n: "\<not> in_band d (lo, ub)" "\<forall>b\<in>set bs'. \<not> in_band d b" by simp_all
    from Cons.prems(3,4) Suc have "k' < length rows" "py_round (Prob_Kumulatif_100 (rows ! k')) = Inl e"
      by simp_all
    from Cons.IH [OF w n(2) this] n(1) u show ?thesis by (auto simp: in_band_def)
  qed
qed

lemma sample_fallback_zero:
  "get_simulation_value dec [] d = Inr 0 \<and>
   (Interval_Angka_Acak df = Inr bs \<longrightarrow> (\<forall>b\<in>set bs. \<not> in_band d b) \<longrightarrow>
      get_simulation_value dec df d = Inr 0) \<and>
   (Interval_Angka_Acak (take k df) = Inr bs \<longrightarrow> first_band bs d = Some i \<longrightarrow>
    parse_interval dec (clean_interval_string (Interval_Kelas (df ! i))) = (None, None) \<longrightarrow>
      get_simulation_value dec df d = Inr 0) \<and>
   (Interval_Angka_Acak (take k df) = Inr bs \<longrightarrow> (\<forall>b\<in>set bs. \<not> in_band d b) \<longrightarrow>
    k < length df \<longrightarrow> py_round (Prob_Kumulatif_100 (df ! k)) = Inl e \<longrightarrow>
      get_simulation_value dec df d = Inl e)"
  unfolding get_simulation_value_def Interval_Angka_Acak_def
  using sample_loop_lookup [of 0 df bs dec d] lookup_no_band [of bs d dec df]
    sample_loop_prefix [of 0 k df bs d i dec] sample_loop_raises [of 0 k df bs d e dec]
    row_value_parse_fail [of dec "df ! i"]
  by simp

lemma sample_fallback_examples:
  "get_simulation_value ascii_dec table_A 99 = Inr 0 \<and>
   get_simulation_value ascii_dec table_A 70 = Inr 0 \<and>
   get_simulation_value ascii_dec table_abc_nan 10 = Inr 0 \<and>
   get_simulation_value ascii_dec table_abc_nan 60 = Inl ValueError"
proof -
  let ?bs = "[(0, 25), (26, 62), (63, 80), (81, 98)] :: (int \<times> int) list"
  have n: "\<forall>b\<in>set ?bs. \<not> in_band 99 b" by (simp add: in_band_def)
  have f: "first_band ?bs 70 = Some 2" by (simp add: in_band_def)
  have p: "parse_interval ascii_dec (clean_interval_string (Interval_Kelas (table_A ! 2)))
             = (None, None)"
    by (simp add: table_A_def mk_row_def clean_interval_string_def replace_def ascii_def
        parse_interval_def)
  have t: "take 4 table_A = table_A" by (simp add: table_A_def)
  have b1: "Interval_Angka_Acak (take 1 table_abc_nan) = Inr [(0, 50)]"
    by (simp add: Interval_Angka_Acak_def table_abc_nan_def mk_row_def py_round_def
        round_half_even_def Let_def)
  have f1: "first_band [(0, 50)] 10 = Some 0" "\<forall>b\<in>set [(0, 50)]. \<not> in_band 60 b"
    by (simp_all add: in_band_def)
  have p1: "parse_interval ascii_dec (clean_interval_string (Interval_Kelas (table_abc_nan ! 0)))
             = (None, None)"
    by (simp add: table_abc_nan_def mk_row_def clean_interval_string_def replace_def ascii_def
        parse_interval_def)
  have r1: "py_round (Prob_Kumulatif_100 (table_abc_nan ! 1)) = Inl ValueError"
    "1 < length table_abc_nan"
    by (simp_all add: table_abc_nan_def mk_row_def py_round_def)
  show ?thesis
    using bands_table_A n f p t b1 f1 p1 r1
      sample_fallback_zero [of ascii_dec 99 table_A ?bs 4 2]
      sample_fallback_zero [of ascii_dec 70 table_A ?bs 4 2]
      sample_fallback_zero [of ascii_dec 10 table_abc_nan "[(0, 50)]" 1 0 ValueError]
      sample_fallback_zero [of ascii_dec 60 table_abc_nan "[(0, 50)]" 1 0 ValueError]
    by simp
qed

text \<open>
  Claim C3. The claim, and the docstring of \<^verbatim>\<open>get_simulation_value\<close> (the value is 0
  when nothing is found or an error occurs), say that the sampler returns 0 and does not
  raise when no band holds the draw. On the table whose only row has the label
  \<^verbatim>\<open>1-10\<close> and a NaN as cumulative percentage (an empty cell of the sheet, which the loader
  keeps) no band holds any draw, and the sampler raises \<^verbatim>\<open>ValueError\<close> for every draw:
  \<^verbatim>\<open>int(round(...))\<close> of line 169 is outside the care that the function takes of a
  label that does not parse.
\<close>

theorem sample_nan_raises:
  "get_simulation_value dec table_nan d = Inl ValueError"
  by (simp add: get_simulation_value_def table_nan_def mk_row_def py_round_def)

text \<open>The band loop of the display raises on the same table.\<close>

lemma display_nan_raises: "Interval_Angka_Acak table_nan = Inl ValueError"
  by (simp add: Interval_Angka_Acak_def table_nan_def mk_row_def py_round_def)

lemma tested_prefix:
  "band_walk lo df = Inr bs \<Longrightarrow>
   tested_bands lo df d = take (length (tested_bands lo df d)) bs"
  by (induction df arbitrary: lo bs) (auto split: sum.splits)

lemma tested_all:
  "band_walk lo df = Inr bs \<Longrightarrow> \<forall>b\<in>set bs. \<not> in_band d b \<Longrightarrow> tested_bands lo df d = bs"
  by (induction df arbitrary: lo bs) (auto simp: in_band_def split: sum.splits)

lemma tested_agree:
  "band_walk lo (take k df) = Inr bs \<Longrightarrow>
   take (length bs) (tested_bands lo df d) = take (length (tested_bands lo df d)) bs"
proof (induction df arbitrary: lo k bs)
  case Nil
  then show ?case by simp
next
  case (Cons r rows)
  show ?case
  proof (cases k)
    case 0
    with Cons.prems show ?thesis by simp
  next
    case (Suc k')
    with Cons.prems obtain u bs' where b: "py_round (Prob_Kumulatif_100 r) = Inr u"
      "band_walk (u + 1) (take k' rows) = Inr bs'" "bs = (lo, u) # bs'"
      by (auto split: sum.splits)
    from Cons.IH [OF b(2)] b(1,3) show ?thesis by simp
  qed
qed

text \<open>
  Claim C9. The bands that the display loop computes are the bands that the sampler tests:
  for every draw, the bands the sampler compares the draw with are the displayed bands of the
  rows it visits, in order (all of them when no band holds the draw), the sampler's result is
  the lookup of the draw in the displayed bands, and the text of the column is the text of
  these bands. The bands of the first \<open>k\<close> rows agree in the same way, also for a table
  on which one of the two loops raises at a later row.
\<close>

theorem displayed_bands_are_sampled_bands:
  "(Interval_Angka_Acak df = Inr bs \<longrightarrow>
      tested_bands 0 df d = take (length (tested_bands 0 df d)) bs \<and>
      ((\<forall>b\<in>set bs. \<not> in_band d b) \<longrightarrow> tested_bands 0 df d = bs) \<and>
      get_simulation_value dec df d = lookup_displayed dec bs df d \<and>
      Interval_Angka_Acak_text df = Inr (map band_text bs)) \<and>
   (Interval_Angka_Acak (take k df) = Inr bs' \<longrightarrow>
      take (length bs') (tested_bands 0 df d) = take (length (tested_bands 0 df d)) bs')"
  unfolding get_simulation_value_def Interval_Angka_Acak_def Interval_Angka_Acak_text_def
  using sample_loop_lookup [of 0 df bs dec d] tested_prefix [of 0 df bs d] tested_all [of 0 df bs d]
    tested_agree [of 0 k df bs' d]
  by (simp add: ebind_def Interval_Angka_Acak_def)

theorem displayed_bands_are_sampled_bands_witness:
  "Interval_Angka_Acak table_A = Inr [(0, 25), (26, 62), (63, 80), (81, 98)] \<and>
   tested_bands 0 table_A 99 = [(0, 25), (26, 62), (63, 80), (81, 98)] \<and>
   get_simulation_value ascii_dec table_A 30
     = lookup_displayed ascii_dec [(0, 25), (26, 62), (63, 80), (81, 98)] table_A 30 \<and>
   Interval_Angka_Acak_text table_A
     = Inr [ascii ''00 - 25'', ascii ''26 - 62'', ascii ''63 - 80'', ascii ''81 - 98'']"
proof -
  let ?bs = "[(0, 25), (26, 62), (63, 80), (81, 98)] :: (int \<times> int) list"
  have n: "\<forall>b\<in>set ?bs. \<not> in_band 99 b" by (simp add: in_band_def)
  have t: "map band_text ?bs
             = [ascii ''00 - 25'', ascii ''26 - 62'', ascii ''63 - 80'', ascii ''81 - 98'']"
    by (simp add: band_text_def py_str_def zfill_def ascii_def)
  show ?thesis
    using bands_table_A n t
      displayed_bands_are_sampled_bands [of table_A ?bs 99 ascii_dec 4 ?bs]
      displayed_bands_are_sampled_bands [of table_A ?bs 30 ascii_dec 4 ?bs]
    by simp
qed

section \<open>The bands are contiguous and disjoint\<close>

lemma band_walk_exists:
  "map (\<lambda>r. py_round (Prob_Kumulatif_100 r)) df = map Inr us \<Longrightarrow>
   \<exists>bs. band_walk lo df = Inr bs \<and> map snd bs = us"
proof (induction df arbitrary: lo us)
  case Nil
  then show ?case by simp
next
  case (Cons r rows)
  then obtain u us' where us: "us = u # us'" "py_round (Prob_Kumulatif_100 r) = Inr u"
    "map (\<lambda>r. py_round (Prob_Kumulatif_100 r)) rows = map Inr us'"
    by (cases us) auto
  from Cons.IH [OF us(3), of "u + 1"] obtain bs' where
    "band_walk (u + 1) rows = Inr bs'" "map snd bs' = us'" by blast
  with us show ?case by simp
qed

lemma band_walk_hd: "band_walk lo (r # rows) = Inr bs \<Longrightarrow> bs \<noteq> [] \<and> fst (hd bs) = lo"
  by (auto split: sum.splits)

lemma band_walk_contiguous:
  "band_walk lo df = Inr bs \<Longrightarrow> Suc i < length bs \<Longrightarrow> fst (bs ! Suc i) = snd (bs ! i) + 1"
proof (induction df arbitrary: lo bs i)
  case Nil
  then show ?case by simp
next
  case (Cons r rows)
  then obtain u bs' where b: "py_round (Prob_Kumulatif_100 r) = Inr u"
    "band_walk (u + 1) rows = Inr bs'" "bs = (lo, u) # bs'"
    by (auto split: sum.splits)
  show ?case
  proof (cases i)
    case 0
    with Cons.prems b obtain r' rows' where "rows = r' # rows'"
      by (cases rows) auto
    with b(2) have "fst (hd bs') = u + 1" "bs' \<noteq> []"
      using band_walk_hd by blast+
    with 0 b(3) show ?thesis by (simp add: hd_conv_nth)
  next
    case (Suc k)
    with Cons.prems b have "Suc k < length bs'" by simp
    from Cons.IH [OF b(2) this] Suc b(3) show ?thesis by simp
  qed
qed

lemma band_walk_separated:
  assumes "band_walk lo df = Inr bs" "sorted (map snd bs)" "i < j" "j < length bs"
  shows "snd (bs ! i) < fst (bs ! j)"
proof -
  from assms(3) obtain k where k: "j = Suc k" "i \<le> k" by (cases j) auto
  with assms have "fst (bs ! j) = snd (bs ! k) + 1"
    using band_walk_contiguous by blast
  moreover have "snd (bs ! i) \<le> snd (bs ! k)"
    using assms(2,4) k sorted_nth_mono [of "map snd bs" i k] by simp
  ultimately show ?thesis by simp
qed

lemma band_walk_disjoint:
  assumes "band_walk lo df = Inr bs" "sorted (map snd bs)" "i < j" "j < length bs"
  shows "band_set (bs ! i) \<inter> band_set (bs ! j) = {}"
  using band_walk_separated [OF assms] by (auto simp: band_set_def)

lemma bands_below_last:
  assumes "sorted (map snd bs)" "x \<in> \<Union>(band_set ` set bs)"
  shows "x \<le> snd (last bs)"
proof -
  from assms(2) obtain b where b: "b \<in> set bs" "x \<le> snd b"
    by (auto simp: band_set_def)
  then obtain i where i: "i < length bs" "bs ! i = b"
    by (auto simp: in_set_conv_nth)
  then have "bs \<noteq> []" by auto
  have "snd (bs ! i) \<le> snd (bs ! (length bs - 1))"
    using assms(1) i sorted_nth_mono [of "map snd bs" i "length bs - 1"] by simp
  with b i \<open>bs \<noteq> []\<close> show ?thesis by (simp add: last_conv_nth)
qed

lemma band_walk_union:
  "band_walk lo df = Inr bs \<Longrightarrow> df \<noteq> [] \<Longrightarrow> sorted (map snd bs) \<Longrightarrow> lo - 1 \<le> snd (hd bs) \<Longrightarrow>
   \<Union>(band_set ` set bs) = {lo .. snd (last bs)}"
proof (induction df arbitrary: lo bs)
  case Nil
  then show ?case by simp
next
  case (Cons r rows)
  then obtain u bs' where b: "py_round (Prob_Kumulatif_100 r) = Inr u"
    "band_walk (u + 1) rows = Inr bs'" "bs = (lo, u) # bs'"
    by (auto split: sum.splits)
  show ?case
  proof (cases rows)
    case Nil
    with b show ?thesis by (simp add: band_set_def)
  next
    case (Cons r' rows')
    with b(2) have ne: "bs' \<noteq> []" "fst (hd bs') = u + 1"
      using band_walk_hd by blast+
    have s: "sorted (map snd bs')" "u \<le> snd (hd bs')"
      using Cons.prems(3) b(3) ne by (cases bs'; simp)+
    have "\<Union>(band_set ` set bs') = {u + 1 .. snd (last bs')}"
      using Cons.IH [OF b(2) _ s(1)] s(2) Cons by simp
    moreover have "u \<le> snd (last bs')"
      using s ne sorted_nth_mono [of "map snd bs'" 0 "length bs' - 1"]
      by (simp add: hd_conv_nth last_conv_nth)
    moreover have "lo - 1 \<le> u" using Cons.prems(4) b(3) by simp
    ultimately show ?thesis using b(3) ne by (auto simp: band_set_def)
  qed
qed

lemma band_walk_top:
  "band_walk lo df = Inr bs \<Longrightarrow> sorted (map snd bs) \<Longrightarrow> \<Union>(band_set ` set bs) \<noteq> {} \<Longrightarrow>
   snd (last bs) \<in> \<Union>(band_set ` set bs)"
proof (induction df arbitrary: lo bs)
  case Nil
  then show ?case by simp
next
  case (Cons r rows)
  then obtain u bs' where b: "py_round (Prob_Kumulatif_100 r) = Inr u"
    "band_walk (u + 1) rows = Inr bs'" "bs = (lo, u) # bs'"
    by (auto split: sum.splits)
  show ?case
  proof (cases "lo - 1 \<le> u")
    case True
    then have "\<Union>(band_set ` set bs) = {lo .. snd (last bs)}"
      using band_walk_union [OF Cons.prems(1) _ Cons.prems(2)] b(3) by simp
    with Cons.prems(3) show ?thesis by auto
  next
    case False
    then have e: "band_set (lo, u) = {}" by (simp add: band_set_def)
    with Cons.prems(3) b(3) have ne: "\<Union>(band_set ` set bs') \<noteq> {}" by simp
    then have "bs' \<noteq> []" by auto
    moreover have "sorted (map snd bs')" using Cons.prems(2) b(3) by simp
    ultimately show ?thesis using Cons.IH [OF b(2) _ ne] b(3) by simp
  qed
qed

text \<open>
  Claim C5. When the cumulative percentages of a table round to a non-decreasing sequence,
  the bands exist, one per row; the upper bound of a row is its rounded percentage; the first
  lower bound is 0 and every later lower bound is the previous upper bound plus one; two
  different bands have no number in common; no number of a band is above the last rounded
  percentage, which belongs to the union of the bands unless all bands are empty; and when
  the first rounded percentage is not below -1 the union is the whole range from 0 to the
  last rounded percentage.
\<close>

theorem bands_contiguous_disjoint:
  assumes "map (\<lambda>r. py_round (Prob_Kumulatif_100 r)) df = map Inr us" and "sorted us"
  shows "\<exists>bs. Interval_Angka_Acak df = Inr bs \<and> length bs = length df \<and> map snd bs = us \<and>
     (df \<noteq> [] \<longrightarrow> fst (hd bs) = 0) \<and>
     (\<forall>i. Suc i < length bs \<longrightarrow> fst (bs ! Suc i) = snd (bs ! i) + 1) \<and>
     (\<forall>i j. i < j \<and> j < length bs \<longrightarrow> band_set (bs ! i) \<inter> band_set (bs ! j) = {}) \<and>
     (df \<noteq> [] \<longrightarrow>
        (\<forall>x\<in>\<Union>(band_set ` set bs). x \<le> last us) \<and>
        (\<Union>(band_set ` set bs) \<noteq> {} \<longrightarrow> last us \<in> \<Union>(band_set ` set bs)) \<and>
        (- 1 \<le> hd us \<longrightarrow> \<Union>(band_set ` set bs) = {0 .. last us}))"
proof -
  from band_walk_exists [OF assms(1), of 0] obtain bs where
    bs: "band_walk 0 df = Inr bs" "map snd bs = us" by blast
  have len: "length bs = length df" using bs(1) by (rule band_walk_length)
  have srt: "sorted (map snd bs)" using bs(2) assms(2) by simp
  have hd0: "df \<noteq> [] \<longrightarrow> fst (hd bs) = 0"
    using bs(1) band_walk_hd by (cases df) blast+
  have lst: "df \<noteq> [] \<longrightarrow> last us = snd (last bs) \<and> hd us = snd (hd bs)"
  proof (cases bs)
    case Nil
    with len show ?thesis by simp
  next
    case (Cons b bs')
    then show ?thesis using bs(2) by (auto simp: last_map)
  qed
  have contig: "\<forall>i. Suc i < length bs \<longrightarrow> fst (bs ! Suc i) = snd (bs ! i) + 1"
    using band_walk_contiguous [OF bs(1)] by blast
  have disj: "\<forall>i j. i < j \<and> j < length bs \<longrightarrow> band_set (bs ! i) \<inter> band_set (bs ! j) = {}"
    using band_walk_disjoint [OF bs(1) srt] by blast
  have up: "df \<noteq> [] \<longrightarrow> (\<forall>x\<in>\<Union>(band_set ` set bs). x \<le> last us)"
    using bands_below_last [OF srt] lst by auto
  have top: "df \<noteq> [] \<longrightarrow> \<Union>(band_set ` set bs) \<noteq> {} \<longrightarrow> last us \<in> \<Union>(band_set ` set bs)"
    using band_walk_top [OF bs(1) srt] lst by auto
  have un: "df \<noteq> [] \<longrightarrow> - 1 \<le> hd us \<longrightarrow> \<Union>(band_set ` set bs) = {0 .. last us}"
    using band_walk_union [OF bs(1) _ srt] lst by auto
  show ?thesis
    unfolding Interval_Angka_Acak_def
    using bs len hd0 contig disj up top un by blast
qed

theorem bands_contiguous_disjoint_witness:
  "map (\<lambda>r. py_round (Prob_Kumulatif_100 r)) table_A = map Inr [25, 62, 80, 98] \<and>
   sorted [25, 62, 80, 98 :: int] \<and>
   Interval_Angka_Acak table_A = Inr [(0, 25), (26, 62), (63, 80), (81, 98)] \<and>
   \<Union>(band_set ` set [(0, 25), (26, 62), (63, 80), (81, 98)]) = {0 .. 98}"
proof -
  have h: "map (\<lambda>r. py_round (Prob_Kumulatif_100 r)) table_A = map Inr [25, 62, 80, 98]"
    by (simp add: table_A_def mk_row_def py_round_def round_half_even_def Let_def)
  have s: "sorted [25, 62, 80, 98 :: int]" by simp
  from bands_contiguous_disjoint [OF h s] bands_table_A
  have "\<Union>(band_set ` set [(0, 25), (26, 62), (63, 80), (81, 98)]) = {0 .. 98}"
    by (simp add: table_A_def)
  with h s bands_table_A show ?thesis by blast
qed

section \<open>Rounding to a float\<close>

text \<open>
  The rounding error of \<open>fl\<close> is at most half a unit in the last place, and the unit in the
  last place of a number of magnitude at most \<open>2 powi k\<close> is at most \<open>2 powi (k - 52)\<close>.
\<close>

lemma ulp_pos: "0 < ulp x"
  by (simp add: ulp_def)

lemma ilog2_le:
  assumes "0 < x"
  shows "2 powi (ilog2 x) \<le> x"
proof (cases "1 \<le> x")
  case True
  then have p: "0 < \<lfloor>x\<rfloor>" by linarith
  from bitlen_bounds [OF p] have b: "2 ^ nat (bitlen \<lfloor>x\<rfloor> - 1) \<le> \<lfloor>x\<rfloor>" by simp
  have n: "0 \<le> bitlen \<lfloor>x\<rfloor> - 1" using p by (simp add: bitlen_alt_def)
  have "(2::rat) powi (bitlen \<lfloor>x\<rfloor> - 1) = 2 ^ nat (bitlen \<lfloor>x\<rfloor> - 1)"
    using n by (simp add: power_int_def)
  also have "\<dots> = of_int (2 ^ nat (bitlen \<lfloor>x\<rfloor> - 1))" by simp
  also have "\<dots> \<le> of_int \<lfloor>x\<rfloor>" using b by (simp only: of_int_le_iff)
  also have "\<dots> \<le> x" by simp
  finally show ?thesis using True by (simp add: ilog2_def)
next
  case False
  define n where "n = \<lceil>1 / x\<rceil> - 1"
  define k where "k = nat (bitlen n)"
  from False assms have "1 < 1 / x" by simp
  then have n1: "0 < n" unfolding n_def by linarith
  from bitlen_bounds [OF n1] have "n < 2 ^ k" by (simp add: k_def)
  then have "\<lceil>1 / x\<rceil> \<le> 2 ^ k" by (simp add: n_def)
  then have "1 / x \<le> of_int (2 ^ k)" by (simp only: ceiling_le_iff)
  then have "1 / x \<le> 2 ^ k" by simp
  then have "1 \<le> 2 ^ k * x" using assms by (simp add: field_simps)
  then have "1 / 2 ^ k \<le> x" by (simp add: field_simps)
  moreover have "(2::rat) powi (- bitlen n) = 1 / 2 ^ k"
    using bitlen_nonneg [of n] by (simp add: power_int_def k_def field_simps)
  ultimately show ?thesis using False by (simp add: ilog2_def n_def)
qed

lemma round_half_even_err: "\<bar>of_int (round_half_even q) - q\<bar> \<le> 1 / 2"
proof -
  have "of_int \<lfloor>q\<rfloor> \<le> q" "q < of_int \<lfloor>q\<rfloor> + 1" by linarith+
  then show ?thesis by (auto simp: round_half_even_def Let_def)
qed

lemma round_half_even_nonneg: "0 \<le> q \<Longrightarrow> 0 \<le> round_half_even q"
  by (auto simp: round_half_even_def Let_def)

lemma fl_err: "\<bar>fl x - x\<bar> \<le> ulp x / 2"
proof (cases "x = 0")
  case True
  then show ?thesis using ulp_pos [of 0] by (simp add: fl_def)
next
  case False
  have u: "0 < ulp x" by (rule ulp_pos)
  have "fl x - x = (of_int (round_half_even (x / ulp x)) - x / ulp x) * ulp x"
    using False u by (simp add: fl_def field_simps)
  then have "\<bar>fl x - x\<bar> = \<bar>of_int (round_half_even (x / ulp x)) - x / ulp x\<bar> * ulp x"
    using u by (simp add: abs_mult)
  also have "\<dots> \<le> 1 / 2 * ulp x"
    using round_half_even_err [of "x / ulp x"] u by (intro mult_right_mono) auto
  finally show ?thesis by simp
qed

lemma fl_nonneg: "0 \<le> x \<Longrightarrow> 0 \<le> fl x"
  using ulp_pos [of x] round_half_even_nonneg [of "x / ulp x"] by (simp add: fl_def)

lemma ulp_le:
  assumes "\<bar>x\<bar> \<le> 2 powi k" "- 1022 \<le> k" "x \<noteq> 0"
  shows "ulp x \<le> 2 powi (k - 52)"
proof -
  from assms(3) have "2 powi (ilog2 \<bar>x\<bar>) \<le> \<bar>x\<bar>" by (intro ilog2_le) simp
  with assms(1) have "(2::rat) powi (ilog2 \<bar>x\<bar>) \<le> 2 powi k" by linarith
  then have "ilog2 \<bar>x\<bar> \<le> k"
    using power_int_strict_increasing [of k "ilog2 \<bar>x\<bar>" "2::rat"] by (cases "ilog2 \<bar>x\<bar> \<le> k") auto
  with assms(2) have "max (ilog2 \<bar>x\<bar>) (- 1022) - 52 \<le> k - 52" by simp
  then show ?thesis unfolding ulp_def by (intro power_int_increasing) auto
qed

lemma fl_err_le:
  assumes "\<bar>x\<bar> \<le> 2 powi k" "- 1022 \<le> k"
  shows "\<bar>fl x - x\<bar> \<le> 2 powi (k - 53)"
proof (cases "x = 0")
  case True
  then show ?thesis by (simp add: fl_def)
next
  case False
  have "\<bar>fl x - x\<bar> \<le> ulp x / 2" by (rule fl_err)
  also have "\<dots> \<le> 2 powi (k - 52) / 2"
    using ulp_le [OF assms False] by simp
  also have "\<dots> = 2 powi (k - 53)"
    using power_int_add [of "2::rat" "k - 53" 1] by simp
  finally show ?thesis .
qed

lemma fl_unit:
  assumes "0 \<le> x" "x \<le> 1"
  shows "0 \<le> fl x" "fl x \<le> 1 + 1 / 2 ^ 53" "\<bar>fl x - x\<bar> \<le> 1 / 2 ^ 53"
    "float_of x = Finite (fl x)"
proof -
  show n: "0 \<le> fl x" using assms(1) by (rule fl_nonneg)
  have "\<bar>fl x - x\<bar> \<le> 2 powi (0 - 53)"
    using assms by (intro fl_err_le) auto
  then show e: "\<bar>fl x - x\<bar> \<le> 1 / 2 ^ 53" by (simp add: power_int_minus_divide)
  then show u: "fl x \<le> 1 + 1 / 2 ^ 53" using assms(2) by linarith
  have "(1::rat) + 1 / 2 ^ 53 < 2 ^ 1" by simp
  also have "\<dots> \<le> 2 ^ 1024" by (intro power_increasing) auto
  finally have "fl x < 2 ^ 1024" using u by linarith
  moreover have "- (2 ^ 1024) < fl x" using n by (simp add: less_le_trans [of _ 0])
  ultimately show "float_of x = Finite (fl x)" by (simp add: float_of_def Let_def)
qed

lemma fl_percent:
  assumes "0 \<le> y" "y \<le> 128"
  shows "0 \<le> fl y" "\<bar>fl y - y\<bar> \<le> 1 / 2 ^ 46" "float_of y = Finite (fl y)"
proof -
  show n: "0 \<le> fl y" using assms(1) by (rule fl_nonneg)
  have "\<bar>fl y - y\<bar> \<le> 2 powi (7 - 53)"
    using assms by (intro fl_err_le) auto
  then show e: "\<bar>fl y - y\<bar> \<le> 1 / 2 ^ 46" by (simp add: power_int_minus_divide)
  then have u: "fl y \<le> 128 + 1 / 2 ^ 46" using assms(2) by linarith
  have "(128::rat) + 1 / 2 ^ 46 < 2 ^ 8" by simp
  also have "\<dots> \<le> 2 ^ 1024" by (intro power_increasing) auto
  finally have "fl y < 2 ^ 1024" using u by linarith
  moreover have "- (2 ^ 1024) < fl y" using n by (simp add: less_le_trans [of _ 0])
  ultimately show "float_of y = Finite (fl y)" by (simp add: float_of_def Let_def)
qed

lemma int_truediv_unit:
  assumes "0 \<le> a" "a \<le> b" "0 < b"
  shows "int_truediv a b = Inr (Finite (fl (of_int a / of_int b)))"
proof -
  have "0 \<le> (of_int a / of_int b :: rat)" "(of_int a / of_int b :: rat) \<le> 1"
    using assms by simp_all
  from fl_unit(4) [OF this] show ?thesis using assms(3) by (simp add: int_truediv_def)
qed

lemma int_truediv_half:
  assumes "0 \<le> n" "n < 2 ^ 1024"
  shows "\<exists>q. int_truediv n 2 = Inr (Finite q) \<and> 0 \<le> q"
proof -
  let ?x = "of_int n / 2 :: rat"
  have x0: "0 \<le> ?x" using assms(1) by simp
  have "of_int n < (of_int (2 ^ 1024) :: rat)" using assms(2) by (simp only: of_int_less_iff)
  then have "?x < 2 ^ 1024 / 2" by simp
  also have "\<dots> = (2::rat) ^ 1023" by simp
  finally have x1: "?x < 2 ^ 1023" .
  then have "\<bar>?x\<bar> \<le> 2 powi 1023" using x0 by simp
  then have "\<bar>fl ?x - ?x\<bar> \<le> 2 powi (1023 - 53)" by (intro fl_err_le) auto
  then have "fl ?x \<le> ?x + 2 ^ 970" by simp
  also have "\<dots> < 2 ^ 1023 + 2 ^ 970" using x1 by simp
  also have "\<dots> \<le> (2::rat) ^ 1023 + 2 ^ 1023" by (intro add_left_mono power_increasing) auto
  also have "\<dots> = 2 ^ 1024" by simp
  finally have "fl ?x < 2 ^ 1024" .
  moreover have n: "0 \<le> fl ?x" using x0 by (rule fl_nonneg)
  then have "- (2 ^ 1024) < fl ?x" by (simp add: less_le_trans [of _ 0])
  ultimately have "float_of ?x = Finite (fl ?x)" by (simp add: float_of_def Let_def)
  with n show ?thesis by (simp add: int_truediv_def)
qed

section \<open>Sampled values are not negative, and the sampler returns on usable tables\<close>

text \<open>
  A piece of a label split at the hyphens holds no hyphen, so \<^verbatim>\<open>int\<close> reads no negative
  number from it; the midpoint of two such bounds is not negative.
\<close>

lemma split_no_sep: "p \<in> set (split sep s) \<Longrightarrow> sep \<notin> set p"
proof (induction s arbitrary: p)
  case Nil
  then show ?case by simp
next
  case (Cons c cs)
  then show ?case
    by (cases "split sep cs") (auto split: if_splits)
qed

lemma set_py_strip: "set (py_strip s) \<subseteq> set s"
proof -
  have "set (py_strip s) \<subseteq> set (rev (dropWhile py_isspace s))"
    unfolding py_strip_def using set_dropWhileD by fastforce
  also have "\<dots> \<subseteq> set s" using set_dropWhileD by fastforce
  finally show ?thesis .
qed

lemma py_int_nonneg:
  assumes "45 \<notin> set s" "py_int dec s = Some v"
  shows "0 \<le> v"
proof (cases "py_strip s")
  case Nil
  with assms(2) show ?thesis by (simp add: py_int_def)
next
  case (Cons c cs)
  then have "c \<in> set s" using set_py_strip [of s] by auto
  with assms(1) have "c \<noteq> 45" by auto
  with assms(2) Cons show ?thesis by (auto simp: py_int_def split: if_splits)
qed

lemma parse_interval_nonneg:
  assumes "parse_interval dec s = (Some a, Some b)"
  shows "0 \<le> a \<and> 0 \<le> b"
proof -
  from assms obtain x y where xy: "split 45 s = [x, y]" "py_int dec x = Some a" "py_int dec y = Some b"
    by (auto simp: parse_interval_def split: list.splits option.splits)
  then have "45 \<notin> set x" "45 \<notin> set y"
    using split_no_sep [of x 45 s] split_no_sep [of y 45 s] by auto
  with xy show ?thesis using py_int_nonneg by blast
qed

lemma int_truediv_Inr:
  "int_truediv a b = Inr f \<Longrightarrow> b \<noteq> 0 \<and> f = Finite (fl (of_int a / of_int b))"
  by (auto simp: int_truediv_def float_of_def Let_def split: if_splits pyfloat.splits)

lemma row_value_nonneg:
  assumes "row_value dec r = Inr v"
  shows "0 \<le> v"
proof (cases "parse_interval dec (clean_interval_string (Interval_Kelas r))")
  case (Pair oa ob)
  show ?thesis
  proof (cases "\<exists>a b. oa = Some a \<and> ob = Some b")
    case True
    then obtain a b where ab: "oa = Some a" "ob = Some b" by blast
    with Pair have n: "0 \<le> a + b" using parse_interval_nonneg by fastforce
    from assms Pair ab obtain f where f: "int_truediv (a + b) 2 = Inr f" "math_ceil f = Inr v"
      by (auto simp: row_value_def ebind_def split: sum.splits)
    from int_truediv_Inr [OF f(1)] have "f = Finite (fl (of_int (a + b) / 2))" by simp
    moreover have "0 \<le> fl (of_int (a + b) / 2)" using n by (intro fl_nonneg) simp
    ultimately show ?thesis using f(2) by (auto simp: math_ceil_def intro: order_trans)
  next
    case False
    with assms Pair show ?thesis
      by (cases oa; cases ob) (auto simp: row_value_def)
  qed
qed

lemma sample_loop_nonneg: "sample_loop dec lo df d = Inr v \<Longrightarrow> 0 \<le> v"
  by (induction df arbitrary: lo) (auto split: sum.splits if_splits dest: row_value_nonneg)

lemma get_simulation_value_nonneg: "get_simulation_value dec df d = Inr v \<Longrightarrow> 0 \<le> v"
  unfolding get_simulation_value_def by (rule sample_loop_nonneg)

lemma sample_loop_returns:
  "table_ok dec df \<Longrightarrow> \<exists>v. sample_loop dec lo df d = Inr v"
proof (induction df arbitrary: lo)
  case Nil
  then show ?case by simp
next
  case (Cons r rows)
  then obtain q where q: "Prob_Kumulatif_100 r = Finite q" and rv: "returns (row_value dec r)"
    and t: "table_ok dec rows"
    by (auto simp: table_ok_def row_ok_def is_finite_def split: pyfloat.splits)
  from rv obtain v where "row_value dec r = Inr v"
    by (auto simp: returns_def split: sum.splits)
  with q Cons.IH [OF t] show ?case by (simp add: py_round_def)
qed

lemma get_simulation_value_returns:
  "table_ok dec df \<Longrightarrow> \<exists>v. get_simulation_value dec df d = Inr v"
  unfolding get_simulation_value_def by (rule sample_loop_returns)

section \<open>Shares, one period, the loop\<close>

lemma share_zero_total: "share s 0 = Inr (Finite 0)"
  by (simp add: share_def)

lemma share_value:
  assumes "0 \<le> s" "s \<le> t" "0 < t"
  shows "share s t = Inr (Finite (fl (fl (of_int s / of_int t) * 100)))"
    and "\<bar>fl (fl (of_int s / of_int t) * 100) - of_int s / of_int t * 100\<bar> \<le> 1 / 2 ^ 45"
proof -
  define x :: rat where "x = of_int s / of_int t"
  define q where "q = fl x"
  have x: "0 \<le> x" "x \<le> 1" using assms by (simp_all add: x_def)
  note u = fl_unit [OF x]
  have d: "int_truediv s t = Inr (Finite q)"
    unfolding q_def x_def using assms by (rule int_truediv_unit)
  have y: "0 \<le> q * 100" "q * 100 \<le> 128" using u(1,2) by (simp_all add: q_def)
  note v = fl_percent [OF y]
  have "share s t = Inr (Finite (fl (q * 100)))"
    using assms(3) d v(3) by (simp add: share_def ebind_def float_mul_int_def)
  then show "share s t = Inr (Finite (fl (fl (of_int s / of_int t) * 100)))"
    by (simp only: q_def x_def)
  have "q * 100 - x * 100 = (q - x) * 100" by (simp add: algebra_simps)
  then have "\<bar>q * 100 - x * 100\<bar> = \<bar>(q - x) * 100\<bar>" by (rule arg_cong)
  also have "\<dots> = \<bar>q - x\<bar> * 100" by (simp only: abs_mult abs_numeral)
  also have "\<dots> \<le> 1 / 2 ^ 53 * 100" using u(3) by (intro mult_right_mono) (auto simp: q_def)
  also have "\<dots> \<le> 1 / 2 ^ 46" by simp
  finally have "\<bar>q * 100 - x * 100\<bar> \<le> 1 / 2 ^ 46" .
  moreover have "\<bar>fl (q * 100) - x * 100\<bar> \<le> \<bar>fl (q * 100) - q * 100\<bar> + \<bar>q * 100 - x * 100\<bar>"
    by linarith
  ultimately have "\<bar>fl (q * 100) - x * 100\<bar> \<le> 1 / 2 ^ 46 + 1 / 2 ^ 46"
    using v(2) by linarith
  also have "\<dots> = (1::rat) / 2 ^ 45" by simp
  finally show "\<bar>fl (fl (of_int s / of_int t) * 100) - of_int s / of_int t * 100\<bar> \<le> 1 / 2 ^ 45"
    by (simp only: q_def x_def)
qed

lemma share_returns:
  assumes "0 \<le> s" "s \<le> t"
  shows "\<exists>p. share s t = Inr p"
proof (cases "t = 0")
  case True
  then show ?thesis by (simp add: share_def)
next
  case False
  with assms have "0 < t" by simp
  from share_value(1) [OF assms this] show ?thesis by blast
qed

lemma ebind_Inr: "ebind m f = Inr y \<longleftrightarrow> (\<exists>x. m = Inr x \<and> f x = Inr y)"
  by (cases m) (simp_all add: ebind_def)

lemma simulate_period_ok:
  assumes "simulate_period dec d i a b ab ro = Inr p"
  shows "period_ok dec d p \<and> Periode p = i + 1 \<and>
    Angka_Acak_A p = a \<and> Angka_Acak_B p = b \<and> Angka_Acak_AB p = ab \<and> Angka_Acak_O p = ro"
  using assms unfolding simulate_period_def period_ok_def Let_def ebind_Inr
  by (elim exE conjE) auto

lemma simulate_period_returns:
  assumes "tables_ok dec d"
  shows "\<exists>p. simulate_period dec d i a b ab ro = Inr p"
proof -
  from assms obtain sa sb sab so where
    g: "get_simulation_value dec (dict_get d ''A'') a = Inr sa"
       "get_simulation_value dec (dict_get d ''B'') b = Inr sb"
       "get_simulation_value dec (dict_get d ''AB'') ab = Inr sab"
       "get_simulation_value dec (dict_get d ''O'') ro = Inr so"
    unfolding tables_ok_def using get_simulation_value_returns by meson
  then have n: "0 \<le> sa" "0 \<le> sb" "0 \<le> sab" "0 \<le> so"
    using get_simulation_value_nonneg by blast+
  define t where "t = sa + sb + sab + so"
  from n obtain pa pb pab po where
    s: "share sa t = Inr pa" "share sb t = Inr pb" "share sab t = Inr pab" "share so t = Inr po"
    using share_returns [of sa t] share_returns [of sb t] share_returns [of sab t]
      share_returns [of so t]
    unfolding t_def by fastforce
  show ?thesis
    unfolding simulate_period_def using g s by (simp add: ebind_def Let_def flip: t_def)
qed

lemma run_loop_Suc:
  "run_loop dec n (Suc k) i rs w =
     (case simulate_period dec (distribusi_dict w) i
             (draw_at w 0) (draw_at w 1) (draw_at w 2) (draw_at w 3) of
        Inl e \<Rightarrow> (Inl e, w\<lparr>rng_calls := rng_calls w + 4\<rparr>)
      | Inr p \<Rightarrow>
          (case int_truediv (i + 1) n of
             Inl e \<Rightarrow> (Inl e, w\<lparr>rng_calls := rng_calls w + 4\<rparr>)
           | Inr f \<Rightarrow>
               run_loop dec n k (i + 1) (rs @ [p])
                 (w\<lparr>rng_calls := rng_calls w + 4, bar := bar w @ [Bar_progress f]\<rparr>)))"
proof -
  have e: "m + 4 = Suc (Suc (Suc (Suc m)))" "m + 3 = Suc (Suc (Suc m))" for m by simp_all
  show ?thesis
    by (simp add: randint_0_99_def draw_at_def add_2_eq_Suc' e split: sum.splits)
qed

lemma draw_at_range: "0 \<le> draw_at w j \<and> draw_at w j \<le> 99"
  unfolding draw_at_def by linarith

lemma run_loop_dict:
  "distribusi_dict (snd (run_loop dec n k i rs w)) = distribusi_dict w"
proof (induction k arbitrary: i rs w)
  case 0
  then show ?case by simp
next
  case (Suc k)
  show ?case
    unfolding run_loop_Suc by (simp add: Suc.IH split: sum.splits)
qed

lemma run_loop_result:
  assumes "run_loop dec n k i rs w = (Inr rs', w')"
  shows "\<exists>new. rs' = rs @ new \<and> length new = k \<and> map Periode new = [i + 1 .. i + int k] \<and>
           list_all (period_ok dec (distribusi_dict w)) new \<and>
           rng_calls w' = rng_calls w + 4 * k"
  using assms
proof (induction k arbitrary: i rs w)
  case 0
  then show ?case by simp
next
  case (Suc k)
  from Suc.prems obtain p f where
    p: "simulate_period dec (distribusi_dict w) i
          (draw_at w 0) (draw_at w 1) (draw_at w 2) (draw_at w 3) = Inr p"
    and f: "int_truediv (i + 1) n = Inr f"
    and r: "run_loop dec n k (i + 1) (rs @ [p])
              (w\<lparr>rng_calls := rng_calls w + 4, bar := bar w @ [Bar_progress f]\<rparr>) = (Inr rs', w')"
    unfolding run_loop_Suc by (auto split: sum.splits)
  from Suc.IH [OF r] obtain new where
    new: "rs' = (rs @ [p]) @ new" "length new = k" "map Periode new = [i + 1 + 1 .. i + 1 + int k]"
      "list_all (period_ok dec (distribusi_dict w)) new" "rng_calls w' = rng_calls w + 4 + 4 * k"
    by auto
  from simulate_period_ok [OF p] have pk: "period_ok dec (distribusi_dict w) p" "Periode p = i + 1"
    by simp_all
  have "[i + 1 .. i + int (Suc k)] = (i + 1) # [i + 1 + 1 .. i + 1 + int k]"
    by (simp add: upto_rec1 add.commute add.left_commute)
  with new pk show ?case
    by (intro exI [of _ "p # new"]) simp
qed

lemma run_loop_returns:
  assumes "tables_ok dec (distribusi_dict w)" "0 \<le> i" "i + int k \<le> n"
  shows "\<exists>rs' w'. run_loop dec n k i rs w = (Inr rs', w')"
  using assms
proof (induction k arbitrary: i rs w)
  case 0
  then show ?case by simp
next
  case (Suc k)
  from simulate_period_returns [OF Suc.prems(1)]
  obtain p where p: "simulate_period dec (distribusi_dict w) i
      (draw_at w 0) (draw_at w 1) (draw_at w 2) (draw_at w 3) = Inr p"
    by blast
  have f: "int_truediv (i + 1) n = Inr (Finite (fl (of_int (i + 1) / of_int n)))"
    using Suc.prems(2,3) by (intro int_truediv_unit) auto
  have "\<exists>rs' w'. run_loop dec n k (i + 1) (rs @ [p])
      (w\<lparr>rng_calls := rng_calls w + 4,
         bar := bar w @ [Bar_progress (Finite (fl (of_int (i + 1) / of_int n)))]\<rparr>) = (Inr rs', w')"
    using Suc.prems by (intro Suc.IH) auto
  then show ?case
    unfolding run_loop_Suc p f by simp
qed

lemma run_result:
  assumes "run_monte_carlo_simulation dec n w = (Inr rs, w')"
  shows "length rs = nat n \<and> map Periode rs = [1 .. n] \<and>
         list_all (period_ok dec (distribusi_dict w)) rs \<and>
         rng_calls w' = rng_calls w + 4 * nat n"
proof -
  from assms obtain w'' where
    r: "run_loop dec n (nat n) 0 [] (w\<lparr>bar := bar w @ [Bar_progress (Finite 0)]\<rparr>) = (Inr rs, w'')"
    and w': "w' = w''\<lparr>bar := bar w'' @ [Bar_empty]\<rparr>"
    by (auto simp: run_monte_carlo_simulation_def split: prod.splits sum.splits)
  from run_loop_result [OF r] w' have
    "length rs = nat n" "map Periode rs = [0 + 1 .. 0 + int (nat n)]"
    "list_all (period_ok dec (distribusi_dict w)) rs" "rng_calls w' = rng_calls w + 4 * nat n"
    by auto
  moreover have "[0 + 1 .. 0 + int (nat n)] = [1 .. n]"
    by (cases "0 \<le> n") simp_all
  ultimately show ?thesis by simp
qed

lemma run_returns:
  assumes "tables_ok dec (distribusi_dict w)"
  shows "\<exists>rs w'. run_monte_carlo_simulation dec n w = (Inr rs, w')"
proof (cases "0 \<le> n")
  case True
  have "\<exists>rs w'. run_loop dec n (nat n) 0 [] (w\<lparr>bar := bar w @ [Bar_progress (Finite 0)]\<rparr>)
          = (Inr rs, w')"
    using assms True by (intro run_loop_returns) auto
  then show ?thesis by (auto simp: run_monte_carlo_simulation_def)
next
  case False
  then show ?thesis by (simp add: run_monte_carlo_simulation_def)
qed

lemma row_value_returns:
  assumes "parse_interval dec (clean_interval_string (Interval_Kelas r)) = (oa, ob)"
    and "oa = None \<or> ob = None \<or> the oa + the ob < 2 ^ 1024"
  shows "returns (row_value dec r)"
proof (cases "\<exists>a b. oa = Some a \<and> ob = Some b")
  case True
  then obtain a b where ab: "oa = Some a" "ob = Some b" by blast
  with assms(1) have "0 \<le> a + b" using parse_interval_nonneg by fastforce
  moreover from assms(2) ab have "a + b < 2 ^ 1024" by simp
  ultimately obtain q where "int_truediv (a + b) 2 = Inr (Finite q)"
    using int_truediv_half by blast
  with assms(1) ab show ?thesis
    by (simp add: row_value_def ebind_def math_ceil_def returns_def)
next
  case False
  with assms(1) show ?thesis
    by (cases oa; cases ob) (auto simp: row_value_def returns_def)
qed

lemmas label_eval = clean_interval_string_def replace_def ascii_def parse_interval_def py_int_def
  py_strip_def py_isspace_def int_unsigned_def ascii_dec_def

lemma table_A_ok: "table_ok ascii_dec table_A"
proof -
  have p1: "parse_interval ascii_dec (clean_interval_string
              (Interval_Kelas (mk_row n (ascii ''103'' @ [8211] @ ascii ''130'') c)))
              = (Some 103, Some 130)" for n c
    by (simp add: mk_row_def label_eval)
  have p2: "parse_interval ascii_dec (clean_interval_string
              (Interval_Kelas (mk_row n (ascii ''131 - 158'') c))) = (Some 131, Some 158)" for n c
    by (simp add: mk_row_def label_eval)
  have p3: "parse_interval ascii_dec (clean_interval_string
              (Interval_Kelas (mk_row n (ascii ''abc'') c))) = (None, None)" for n c
    by (simp add: mk_row_def label_eval)
  have p4: "parse_interval ascii_dec (clean_interval_string
              (Interval_Kelas (mk_row n (ascii ''1,187-1,214'') c))) = (Some 1187, Some 1214)" for n c
    by (simp add: mk_row_def label_eval)
  have "returns (row_value ascii_dec (mk_row n (ascii ''103'' @ [8211] @ ascii ''130'') c))" for n c
    by (rule row_value_returns [OF p1]) simp
  moreover have "returns (row_value ascii_dec (mk_row n (ascii ''131 - 158'') c))" for n c
    by (rule row_value_returns [OF p2]) simp
  moreover have "returns (row_value ascii_dec (mk_row n (ascii ''abc'') c))" for n c
    by (rule row_value_returns [OF p3]) simp
  moreover have "returns (row_value ascii_dec (mk_row n (ascii ''1,187-1,214'') c))" for n c
    by (rule row_value_returns [OF p4]) simp
  moreover have "is_finite (Prob_Kumulatif_100 (mk_row n l c))" for n l c
    by (simp add: mk_row_def is_finite_def)
  ultimately show ?thesis
    by (simp add: table_ok_def table_A_def row_ok_def)
qed

lemma dict_A_get:
  "dict_get dict_A ''A'' = table_A" "dict_get dict_A ''B'' = []"
  "dict_get dict_A ''AB'' = []" "dict_get dict_A ''O'' = []"
  by (simp_all add: dict_get_def dict_A_def)

lemma dict_A_ok: "tables_ok ascii_dec dict_A"
  by (simp add: tables_ok_def dict_A_get table_A_ok) (simp add: table_ok_def)

lemma world_of_simps [simp]:
  "distribusi_dict (world_of d) = d" "rng_calls (world_of d) = 0" "bar (world_of d) = []"
  "rng (world_of d) n = 37 * n + 11"
  by (simp_all add: world_of_def)

section \<open>The result table of a run\<close>

text \<open>
  On tables whose rows are all usable (the cumulative percentage is a number and the row's
  value is computed without an exception) a run over a positive number of periods returns
  exactly that many records, numbered 1, 2, ... in order; in each record the total is the
  sum of the four sampled values, and each sampled value is the sampler's value for the
  record's draw.
\<close>

theorem run_returns_periods:
  "tables_ok dec (distribusi_dict w) \<longrightarrow> 0 < n \<longrightarrow>
     (\<exists>rs w'. run_monte_carlo_simulation dec n w = (Inr rs, w') \<and>
        length rs = nat n \<and> map Periode rs = [1 .. n] \<and>
        (\<forall>p\<in>set rs. Total_Simulasi p
                        = Simulasi_A p + Simulasi_B p + Simulasi_AB p + Simulasi_O p) \<and>
        list_all (period_ok dec (distribusi_dict w)) rs)"
proof (intro impI)
  assume t: "tables_ok dec (distribusi_dict w)" and "0 < n"
  from run_returns [OF t] obtain rs w' where
    r: "run_monte_carlo_simulation dec n w = (Inr rs, w')" by blast
  from run_result [OF r] have p: "length rs = nat n" "map Periode rs = [1 .. n]"
    "list_all (period_ok dec (distribusi_dict w)) rs" by simp_all
  from p(3) have "\<forall>p\<in>set rs. Total_Simulasi p
      = Simulasi_A p + Simulasi_B p + Simulasi_AB p + Simulasi_O p"
    by (simp add: list_all_iff period_ok_def)
  with r p show "\<exists>rs w'. run_monte_carlo_simulation dec n w = (Inr rs, w') \<and>
        length rs = nat n \<and> map Periode rs = [1 .. n] \<and>
        (\<forall>p\<in>set rs. Total_Simulasi p
                        = Simulasi_A p + Simulasi_B p + Simulasi_AB p + Simulasi_O p) \<and>
        list_all (period_ok dec (distribusi_dict w)) rs"
    by blast
qed

theorem run_returns_periods_witness:
  "tables_ok ascii_dec (distribusi_dict (world_of dict_A)) \<and> (0::int) < 3 \<and>
   (\<exists>rs w'. run_monte_carlo_simulation ascii_dec 3 (world_of dict_A) = (Inr rs, w') \<and>
      length rs = 3 \<and> map Periode rs = [1, 2, 3])"
proof -
  have t: "tables_ok ascii_dec (distribusi_dict (world_of dict_A))" by (simp add: dict_A_ok)
  have u: "[1 .. 3 :: int] = [1, 2, 3]" by (simp add: upto_rec1)
  from run_returns_periods [of ascii_dec "world_of dict_A" 3] t
  show ?thesis by (auto simp: u)
qed

text \<open>
  A table whose cumulative percentage is a NaN makes the sampler raise in the first period,
  whatever the draws and the number of periods.
\<close>

lemma nan_period: "simulate_period dec dict_nan i a b ab ro = Inl ValueError"
  by (simp add: simulate_period_def dict_get_def dict_nan_def get_simulation_value_def
      table_nan_def mk_row_def py_round_def ebind_def)

lemma run_nan:
  assumes "0 < n"
  shows "fst (run_monte_carlo_simulation dec n (world_of dict_nan)) = Inl ValueError"
proof -
  from assms obtain k where k: "nat n = Suc k" by (cases "nat n") auto
  show ?thesis
    unfolding run_monte_carlo_simulation_def k run_loop_Suc
    by (simp add: nan_period)
qed

text \<open>
  Claim C4. The claim says that a run over a positive number of periods returns that many
  records for every dictionary of tables. With a table of category A whose only row has a
  NaN as cumulative percentage (an empty cell of the sheet, which the loader keeps), a run
  over 1 period returns no record: the sampler raises \<^verbatim>\<open>ValueError\<close> at
  \<^verbatim>\<open>int(round(...))\<close>, line 169, and the run does not catch it. The docstring of the
  sampler says that its value is 0 when an error occurs, and it returns 0 for a label that
  does not parse; the rounding is the case it leaves out.
\<close>

theorem run_nan_table_raises:
  "fst (run_monte_carlo_simulation ascii_dec 1 (world_of dict_nan)) = Inl ValueError"
  by (rule run_nan) simp

text \<open>
  The second way in which a row is unusable: bounds so large that the float division of
  their sum by 2 overflows. The sampler raises \<^verbatim>\<open>OverflowError\<close> on such a row.
\<close>

lemma ilog2_nonneg: "1 \<le> x \<Longrightarrow> 0 \<le> ilog2 x"
proof -
  assume x: "1 \<le> x"
  then have "0 < \<lfloor>x\<rfloor>" by linarith
  then have "1 \<le> bitlen \<lfloor>x\<rfloor>" by (simp add: bitlen_alt_def)
  with x show ?thesis by (simp add: ilog2_def)
qed

lemma fl_ge:
  assumes "1 \<le> x"
  shows "x * (1 - 1 / 2 ^ 53) \<le> fl x"
proof -
  have e: "0 \<le> ilog2 x" using assms by (rule ilog2_nonneg)
  have a: "\<bar>x\<bar> = x" using assms by simp
  have "ulp x = 2 powi (ilog2 x - 52)" using e by (simp add: ulp_def a max_def)
  also have "\<dots> = 2 powi (ilog2 x) * 2 powi (- 52)"
    using power_int_add [of "2::rat" "ilog2 x" "- 52"] by simp
  also have "\<dots> \<le> x * 2 powi (- 52)"
    using ilog2_le [of x] assms by (intro mult_right_mono) auto
  finally have "ulp x \<le> x / 2 ^ 52" by (simp add: power_int_minus_divide)
  moreover define c where "c = x / 2 ^ 52"
  ultimately have u: "ulp x \<le> c" by simp
  have "\<bar>fl x - x\<bar> \<le> ulp x / 2" by (rule fl_err)
  with u have "x - c / 2 \<le> fl x" by linarith
  then show ?thesis by (simp add: c_def algebra_simps)
qed

lemma int_truediv_overflow:
  assumes "2 ^ 1026 \<le> n"
  shows "int_truediv n 2 = Inl OverflowError"
proof -
  let ?x = "of_int n / 2 :: rat"
  have "(of_int (2 ^ 1026) :: rat) \<le> of_int n" using assms by (simp only: of_int_le_iff)
  then have x: "2 ^ 1025 \<le> ?x" by simp
  have "(1::rat) \<le> 2 ^ 1025" by simp
  with x have "1 \<le> ?x" by linarith
  from fl_ge [OF this] have "?x * (1 - 1 / 2 ^ 53) \<le> fl ?x" .
  moreover have "(2::rat) ^ 1025 * (1 - 1 / 2 ^ 53) \<le> ?x * (1 - 1 / 2 ^ 53)"
    using x by (intro mult_right_mono) auto
  moreover have "(2::rat) ^ 1024 \<le> 2 ^ 1025 * (1 - 1 / 2 ^ 53)" by simp
  ultimately have "2 ^ 1024 \<le> fl ?x" by linarith
  then show ?thesis by (simp add: int_truediv_def float_of_def)
qed

lemma int_digits_zeros:
  "int_digits ascii_dec acc (replicate n 48) = Some (acc * 10 ^ n)"
proof (induction n arbitrary: acc rule: less_induct)
  case (less n)
  show ?case
  proof (cases n)
    case 0
    then show ?thesis by simp
  next
    case (Suc m)
    show ?thesis
    proof (cases m)
      case 0
      with Suc show ?thesis by (simp add: ascii_dec_def)
    next
      case (Suc k)
      with \<open>n = Suc m\<close> have n: "n = Suc (Suc k)" by simp
      have "int_digits ascii_dec acc (replicate n 48)
              = int_digits ascii_dec (10 * acc) (replicate (Suc k) 48)"
        unfolding n by (simp add: ascii_dec_def)
      also have "\<dots> = Some (10 * acc * 10 ^ Suc k)"
        using less.IH [of "Suc k" "10 * acc"] n by simp
      finally show ?thesis by (simp add: n)
    qed
  qed
qed

lemma replace_other: "c \<notin> set s \<Longrightarrow> replace c new s = s"
  by (induction s) (auto simp: replace_def)

lemma split_at_sep: "sep \<notin> set s \<Longrightarrow> split sep (s @ sep # t) = s # split sep t"
  by (induction s) auto

lemma py_strip_no_space: "\<forall>c\<in>set s. \<not> py_isspace c \<Longrightarrow> py_strip s = s"
proof -
  assume a: "\<forall>c\<in>set s. \<not> py_isspace c"
  then have "dropWhile py_isspace s = s" by (cases s) auto
  moreover from a have "dropWhile py_isspace (rev s) = rev s" by (cases "rev s") auto
  ultimately show ?thesis by (simp add: py_strip_def)
qed

lemma huge_label:
  "parse_interval ascii_dec (clean_interval_string (49 # replicate 400 48 @ [45, 53]))
     = (Some (10 ^ 400), Some 5)"
proof -
  let ?a = "49 # replicate 400 48 :: pystr"
  let ?l = "?a @ [45, 53]"
  have c: "clean_interval_string ?l = ?l"
    by (simp add: clean_interval_string_def replace_other)
  have s: "split 45 ?l = [?a, [53]]"
    using split_at_sep [of 45 ?a "[53]"] by simp
  have "py_strip ?a = ?a" by (rule py_strip_no_space) (simp add: py_isspace_def)
  then have a: "py_int ascii_dec ?a = Some (10 ^ 400)"
    by (simp add: py_int_def int_unsigned_def ascii_dec_def int_digits_zeros)
  have b: "py_int ascii_dec [53] = Some 5"
    by (simp add: py_int_def py_strip_def py_isspace_def int_unsigned_def ascii_dec_def)
  have "parse_interval ascii_dec ?l = (Some (10 ^ 400), Some 5)"
    unfolding parse_interval_def s by (simp add: a b)
  then show ?thesis using c by simp
qed

lemma huge_interval_overflows:
  "get_simulation_value ascii_dec table_huge 37 = Inl OverflowError \<and>
   \<not> table_ok ascii_dec table_huge"
proof -
  have "(2::int) ^ 1026 \<le> 10 ^ 400 + 5" by simp
  then have o: "int_truediv (10 ^ 400 + 5) 2 = Inl OverflowError"
    by (rule int_truediv_overflow)
  have r: "row_value ascii_dec (mk_row 1 (49 # replicate 400 48 @ [45, 53]) 100) = Inl OverflowError"
    using huge_label o by (simp add: row_value_def mk_row_def ebind_def)
  have p: "py_round (Prob_Kumulatif_100 (mk_row 1 l 100)) = Inr 100" for l
    by (simp add: mk_row_def py_round_def)
  show ?thesis
    unfolding get_simulation_value_def table_huge_def table_ok_def row_ok_def
    by (simp add: p r returns_def)
qed

section \<open>Only category A has a table\<close>

lemma get_simulation_value_empty: "get_simulation_value dec [] d = Inr 0"
  by (simp add: get_simulation_value_def)

text \<open>
  When the tables of B, AB and O are absent or empty and the rows of the table of A are all
  usable, a run over 5 periods returns 5 records, and in each of them the sampled values of
  B, AB and O are 0 and the total is the sampled value of A.
\<close>

theorem run_only_A:
  "table_ok dec (dict_get (distribusi_dict w) ''A'') \<longrightarrow>
   dict_get (distribusi_dict w) ''B'' = [] \<longrightarrow>
   dict_get (distribusi_dict w) ''AB'' = [] \<longrightarrow>
   dict_get (distribusi_dict w) ''O'' = [] \<longrightarrow>
     (\<exists>rs w'. run_monte_carlo_simulation dec 5 w = (Inr rs, w') \<and> length rs = 5 \<and>
        (\<forall>p\<in>set rs. Simulasi_B p = 0 \<and> Simulasi_AB p = 0 \<and> Simulasi_O p = 0 \<and>
                      Total_Simulasi p = Simulasi_A p))"
proof (intro impI)
  assume a: "table_ok dec (dict_get (distribusi_dict w) ''A'')"
    and e: "dict_get (distribusi_dict w) ''B'' = []" "dict_get (distribusi_dict w) ''AB'' = []"
      "dict_get (distribusi_dict w) ''O'' = []"
  have t: "tables_ok dec (distribusi_dict w)"
    using a e by (simp add: tables_ok_def table_ok_def)
  from run_returns [OF t] obtain rs w' where
    r: "run_monte_carlo_simulation dec 5 w = (Inr rs, w')" by blast
  from run_result [OF r] have p: "length rs = 5"
    "list_all (period_ok dec (distribusi_dict w)) rs" by simp_all
  have "\<forall>p\<in>set rs. Simulasi_B p = 0 \<and> Simulasi_AB p = 0 \<and> Simulasi_O p = 0 \<and>
                      Total_Simulasi p = Simulasi_A p"
    using p(2) e by (auto simp: list_all_iff period_ok_def get_simulation_value_empty)
  with r p(1) show "\<exists>rs w'. run_monte_carlo_simulation dec 5 w = (Inr rs, w') \<and> length rs = 5 \<and>
        (\<forall>p\<in>set rs. Simulasi_B p = 0 \<and> Simulasi_AB p = 0 \<and> Simulasi_O p = 0 \<and>
                      Total_Simulasi p = Simulasi_A p)"
    by blast
qed

theorem run_only_A_witness:
  "table_ok ascii_dec (dict_get (distribusi_dict (world_of dict_A)) ''A'') \<and>
   dict_get (distribusi_dict (world_of dict_A)) ''A'' \<noteq> [] \<and>
   dict_get (distribusi_dict (world_of dict_A)) ''B'' = [] \<and>
   dict_get (distribusi_dict (world_of dict_A)) ''AB'' = [] \<and>
   dict_get (distribusi_dict (world_of dict_A)) ''O'' = [] \<and>
   (\<exists>rs w'. run_monte_carlo_simulation ascii_dec 5 (world_of dict_A) = (Inr rs, w') \<and>
      length rs = 5 \<and>
      list_all (\<lambda>p. Simulasi_B p = 0 \<and> Simulasi_AB p = 0 \<and> Simulasi_O p = 0 \<and>
                    Total_Simulasi p = Simulasi_A p) rs)"
proof -
  have h: "table_ok ascii_dec (dict_get (distribusi_dict (world_of dict_A)) ''A'')"
    "dict_get (distribusi_dict (world_of dict_A)) ''B'' = []"
    "dict_get (distribusi_dict (world_of dict_A)) ''AB'' = []"
    "dict_get (distribusi_dict (world_of dict_A)) ''O'' = []"
    by (simp_all add: dict_A_get table_A_ok)
  have ne: "dict_get (distribusi_dict (world_of dict_A)) ''A'' \<noteq> []"
    by (simp add: dict_A_get table_A_def)
  from run_only_A [of ascii_dec "world_of dict_A"] h ne
  show ?thesis by (auto simp: list_all_iff)
qed

text \<open>
  Claim C7. The claim says that a run over 5 periods yields 5 records whenever only category
  A has a table that is not empty. With the table of A whose only row has a NaN as
  cumulative percentage, and no table for B, AB and O, the run over 5 periods yields no
  record: it raises \<^verbatim>\<open>ValueError\<close> in the first period, from the rounding of line 169
  that the sampler, against its docstring, does not guard.
\<close>

theorem run_only_A_nan_raises:
  "fst (run_monte_carlo_simulation ascii_dec 5 (world_of dict_nan)) = Inl ValueError"
  by (rule run_nan) simp

section \<open>Percentage shares\<close>



lemma float_of_1: "float_of 1 = Finite 1"
proof -
  have l: "ilog2 1 = 0" unfolding ilog2_def by code_simp
  have u: "ulp 1 = 1 / 2 ^ 52" unfolding ulp_def by (simp add: l power_int_minus_divide)
  have f: "fl 1 = 1" unfolding fl_def u by simp
  show ?thesis unfolding float_of_def f by simp
qed

lemma float_of_100: "float_of 100 = Finite 100"
proof -
  have l: "ilog2 100 = 6" unfolding ilog2_def by code_simp
  have u: "ulp 100 = 1 / 2 ^ 46" unfolding ulp_def by (simp add: l power_int_minus_divide)
  have f: "fl 100 = 100" unfolding fl_def u by simp
  show ?thesis unfolding float_of_def f by simp
qed

lemma float_of_0: "float_of 0 = Finite 0"
  by (simp add: float_of_def fl_def)

lemma share_eval: "share 117 117 = Inr (Finite 100)" "share 0 117 = Inr (Finite 0)"
  by (simp_all add: share_def int_truediv_def float_of_1 float_of_0 float_of_100 ebind_def
      float_mul_int_def)

lemma row_value_103_130:
  "row_value ascii_dec (mk_row n (ascii ''103'' @ [8211] @ ascii ''130'') c) = Inr 117"
  by (simp add: row_value_def mk_row_def label_eval int_truediv_233 ebind_def math_ceil_def)

lemma sample_loop_hit:
  "py_round (Prob_Kumulatif_100 r) = Inr u \<Longrightarrow> lo \<le> d \<Longrightarrow> d \<le> u \<Longrightarrow>
   sample_loop dec lo (r # rows) d = row_value dec r"
  by simp

lemma sample_A_11: "get_simulation_value ascii_dec table_A 11 = Inr 117"
proof -
  have r: "py_round (Prob_Kumulatif_100 (mk_row 1 (ascii ''103'' @ [8211] @ ascii ''130'') 25))
             = Inr 25"
    by (simp add: mk_row_def py_round_def)
  have "sample_loop ascii_dec 0 (mk_row 1 (ascii ''103'' @ [8211] @ ascii ''130'') 25 # rows) 11
          = Inr 117" for rows
    using sample_loop_hit [OF r, of 0 11 ascii_dec rows] row_value_103_130 [of 1 25] by simp
  then show ?thesis
    unfolding get_simulation_value_def table_A_def by blast
qed

lemma period_A_eval: "simulate_period ascii_dec dict_A 0 11 48 85 22 = Inr period_A"
  by (simp add: simulate_period_def dict_A_get sample_A_11 get_simulation_value_empty share_eval
      ebind_def period_A_def)


lemma draws_eval:
  "draw_at ((world_of d)\<lparr>bar := b\<rparr>) 0 = 11" "draw_at ((world_of d)\<lparr>bar := b\<rparr>) 1 = 48"
  "draw_at ((world_of d)\<lparr>bar := b\<rparr>) 2 = 85" "draw_at ((world_of d)\<lparr>bar := b\<rparr>) 3 = 22"
  by (simp_all add: draw_at_def world_of_def)

lemma one_period_eval:
  assumes "simulate_period ascii_dec d 0 11 48 85 22 = Inr p"
  shows "run_monte_carlo_simulation ascii_dec 1 (world_of d)
           = (Inr [p], \<lparr>distribusi_dict = d, rng = (\<lambda>n. 37 * n + 11), rng_calls = 4,
                bar = [Bar_progress (Finite 0), Bar_progress (Finite 1), Bar_empty]\<rparr>)"
proof -
  have n: "nat 1 = Suc 0" by simp
  have t: "int_truediv 1 1 = Inr (Finite 1)"
    by (simp add: int_truediv_def float_of_1)
  show ?thesis
    unfolding run_monte_carlo_simulation_def n run_loop_Suc draws_eval
    by (simp add: assms t) (simp add: world_of_def)
qed


section \<open>The periods of highest and lowest total\<close>

lemma idx_scan_max:
  assumes "bi < length pre" "pre ! bi = bv" "\<forall>j<length pre. pre ! j \<le> bv" "\<forall>j<bi. pre ! j < bv"
  shows "idx_scan (\<lambda>a b. b < a) bi bv (length pre) xs < length (pre @ xs) \<and>
         (\<forall>j<length (pre @ xs). (pre @ xs) ! j \<le> (pre @ xs) ! idx_scan (\<lambda>a b. b < a) bi bv (length pre) xs) \<and>
         (\<forall>j<idx_scan (\<lambda>a b. b < a) bi bv (length pre) xs.
            (pre @ xs) ! j < (pre @ xs) ! idx_scan (\<lambda>a b. b < a) bi bv (length pre) xs)"
  using assms
proof (induction xs arbitrary: pre bi bv)
  case Nil
  then show ?case by simp
next
  case (Cons x xs)
  show ?case
  proof (cases "bv < x")
    case True
    have "idx_scan (\<lambda>a b. b < a) (length pre) x (length (pre @ [x])) xs < length ((pre @ [x]) @ xs) \<and>
         (\<forall>j<length ((pre @ [x]) @ xs). ((pre @ [x]) @ xs) ! j
              \<le> ((pre @ [x]) @ xs) ! idx_scan (\<lambda>a b. b < a) (length pre) x (length (pre @ [x])) xs) \<and>
         (\<forall>j<idx_scan (\<lambda>a b. b < a) (length pre) x (length (pre @ [x])) xs.
            ((pre @ [x]) @ xs) ! j
              < ((pre @ [x]) @ xs) ! idx_scan (\<lambda>a b. b < a) (length pre) x (length (pre @ [x])) xs)"
    proof (rule Cons.IH)
      show "length pre < length (pre @ [x])" by simp
      show "(pre @ [x]) ! length pre = x" by simp
      show "\<forall>j<length (pre @ [x]). (pre @ [x]) ! j \<le> x"
        using Cons.prems(3) True by (auto simp: nth_append less_Suc_eq intro: order_trans less_imp_le)
      show "\<forall>j<length pre. (pre @ [x]) ! j < x"
        using Cons.prems(3) True by (auto simp: nth_append intro: le_less_trans)
    qed
    with True show ?thesis by simp
  next
    case False
    have "idx_scan (\<lambda>a b. b < a) bi bv (length (pre @ [x])) xs < length ((pre @ [x]) @ xs) \<and>
         (\<forall>j<length ((pre @ [x]) @ xs). ((pre @ [x]) @ xs) ! j
              \<le> ((pre @ [x]) @ xs) ! idx_scan (\<lambda>a b. b < a) bi bv (length (pre @ [x])) xs) \<and>
         (\<forall>j<idx_scan (\<lambda>a b. b < a) bi bv (length (pre @ [x])) xs.
            ((pre @ [x]) @ xs) ! j
              < ((pre @ [x]) @ xs) ! idx_scan (\<lambda>a b. b < a) bi bv (length (pre @ [x])) xs)"
    proof (rule Cons.IH)
      show "bi < length (pre @ [x])" using Cons.prems(1) by simp
      show "(pre @ [x]) ! bi = bv" using Cons.prems(1,2) by (simp add: nth_append)
      show "\<forall>j<length (pre @ [x]). (pre @ [x]) ! j \<le> bv"
        using Cons.prems(3) False by (auto simp: nth_append less_Suc_eq)
      show "\<forall>j<bi. (pre @ [x]) ! j < bv"
        using Cons.prems(1,4) by (auto simp: nth_append)
    qed
    with False show ?thesis by simp
  qed
qed

lemma idxmax_first:
  assumes "xs \<noteq> []"
  shows "idxmax xs < length xs \<and> (\<forall>j<length xs. xs ! j \<le> xs ! idxmax xs) \<and>
         (\<forall>j<idxmax xs. xs ! j < xs ! idxmax xs)"
proof -
  from assms obtain x xs' where x: "xs = x # xs'" by (cases xs) auto
  have "idx_scan (\<lambda>a b. b < a) 0 x (length [x]) xs' < length ([x] @ xs') \<and>
         (\<forall>j<length ([x] @ xs'). ([x] @ xs') ! j \<le> ([x] @ xs') ! idx_scan (\<lambda>a b. b < a) 0 x (length [x]) xs') \<and>
         (\<forall>j<idx_scan (\<lambda>a b. b < a) 0 x (length [x]) xs'.
            ([x] @ xs') ! j < ([x] @ xs') ! idx_scan (\<lambda>a b. b < a) 0 x (length [x]) xs')"
    by (rule idx_scan_max) simp_all
  then show ?thesis by (simp add: idxmax_def x)
qed

lemma idx_scan_neg:
  "idx_scan (\<lambda>a b. a < b) bi bv i xs = idx_scan (\<lambda>a b. b < a) bi (- bv) i (map uminus xs)"
  by (induction xs arbitrary: bi bv i) auto

lemma idxmin_idxmax: "idxmin xs = idxmax (map uminus xs)"
  by (cases xs) (simp_all add: idxmin_def idxmax_def idx_scan_neg)

lemma idxmin_first:
  assumes "xs \<noteq> []"
  shows "idxmin xs < length xs \<and> (\<forall>j<length xs. xs ! idxmin xs \<le> xs ! j) \<and>
         (\<forall>j<idxmin xs. xs ! idxmin xs < xs ! j)"
proof -
  from assms have "map uminus xs \<noteq> []" by simp
  from idxmax_first [OF this] show ?thesis
    unfolding idxmin_idxmax by (auto simp: less_trans)
qed

lemma first_extreme_earliest:
  assumes "sorted_wrt (<) (map Periode sim_df)" "i < length sim_df" "p \<in> set sim_df"
    "\<forall>j<i. Total_Simulasi (sim_df ! j) \<noteq> Total_Simulasi p"
  shows "Total_Simulasi p = Total_Simulasi (sim_df ! i) \<longrightarrow> Periode (sim_df ! i) \<le> Periode p"
proof
  assume e: "Total_Simulasi p = Total_Simulasi (sim_df ! i)"
  from assms(3) obtain j where j: "j < length sim_df" "sim_df ! j = p"
    by (auto simp: in_set_conv_nth)
  have "i \<le> j"
  proof (rule ccontr)
    assume "\<not> i \<le> j"
    then have "j < i" by simp
    with assms(4) j show False by blast
  qed
  then show "Periode (sim_df ! i) \<le> Periode p"
  proof (cases "i = j")
    case True
    with j show ?thesis by simp
  next
    case False
    with \<open>i \<le> j\<close> have "i < j" by simp
    with assms(1) j have "map Periode sim_df ! i < map Periode sim_df ! j"
      by (intro sorted_wrt_nth_less) simp_all
    with j assms(2) show ?thesis by simp
  qed
qed

text \<open>
  Claim C8. On a result table that is not empty the summary reports a row of maximal total
  and a row of minimal total, and each is the first such row of the table: every row before
  it has a strictly smaller (respectively larger) total. When the period numbers increase
  along the table, as they do in the result of a run, the reported row has the smallest
  period number among the rows of the same total.
\<close>

theorem extremes_first_max_min:
  "sim_df \<noteq> [] \<longrightarrow>
     (\<exists>i k. i < length sim_df \<and> k < length sim_df \<and>
        perform_summary_analysis sim_df = Some (sim_df ! i, sim_df ! k) \<and>
        (\<forall>p\<in>set sim_df. Total_Simulasi p \<le> Total_Simulasi (sim_df ! i)) \<and>
        (\<forall>j<i. Total_Simulasi (sim_df ! j) < Total_Simulasi (sim_df ! i)) \<and>
        (\<forall>p\<in>set sim_df. Total_Simulasi (sim_df ! k) \<le> Total_Simulasi p) \<and>
        (\<forall>j<k. Total_Simulasi (sim_df ! k) < Total_Simulasi (sim_df ! j)) \<and>
        (sorted_wrt (<) (map Periode sim_df) \<longrightarrow>
           (\<forall>p\<in>set sim_df. Total_Simulasi p = Total_Simulasi (sim_df ! i)
                               \<longrightarrow> Periode (sim_df ! i) \<le> Periode p) \<and>
           (\<forall>p\<in>set sim_df. Total_Simulasi p = Total_Simulasi (sim_df ! k)
                               \<longrightarrow> Periode (sim_df ! k) \<le> Periode p)))"
proof
  assume ne: "sim_df \<noteq> []"
  define ts where "ts = map Total_Simulasi sim_df"
  define i where "i = idxmax ts"
  define k where "k = idxmin ts"
  have tne: "ts \<noteq> []" and len: "length ts = length sim_df" using ne by (simp_all add: ts_def)
  from idxmax_first [OF tne] have
    i: "i < length sim_df" "\<forall>j<length sim_df. ts ! j \<le> ts ! i" "\<forall>j<i. ts ! j < ts ! i"
    by (simp_all add: i_def len)
  from idxmin_first [OF tne] have
    k: "k < length sim_df" "\<forall>j<length sim_df. ts ! k \<le> ts ! j" "\<forall>j<k. ts ! k < ts ! j"
    by (simp_all add: k_def len)
  have nth: "j < length sim_df \<Longrightarrow> ts ! j = Total_Simulasi (sim_df ! j)" for j
    by (simp add: ts_def)
  have p: "perform_summary_analysis sim_df = Some (sim_df ! i, sim_df ! k)"
    using ne by (simp add: perform_summary_analysis_def i_def k_def ts_def)
  have mx: "\<forall>p\<in>set sim_df. Total_Simulasi p \<le> Total_Simulasi (sim_df ! i)"
    using i(1,2) nth by (auto simp: in_set_conv_nth)
  have mn: "\<forall>p\<in>set sim_df. Total_Simulasi (sim_df ! k) \<le> Total_Simulasi p"
    using k(1,2) nth by (auto simp: in_set_conv_nth)
  have mxs: "\<forall>j<i. Total_Simulasi (sim_df ! j) < Total_Simulasi (sim_df ! i)"
    using i(1,3) nth by auto
  have mns: "\<forall>j<k. Total_Simulasi (sim_df ! k) < Total_Simulasi (sim_df ! j)"
    using k(1,3) nth by auto
  have e: "sorted_wrt (<) (map Periode sim_df) \<longrightarrow>
           (\<forall>p\<in>set sim_df. Total_Simulasi p = Total_Simulasi (sim_df ! i)
                               \<longrightarrow> Periode (sim_df ! i) \<le> Periode p) \<and>
           (\<forall>p\<in>set sim_df. Total_Simulasi p = Total_Simulasi (sim_df ! k)
                               \<longrightarrow> Periode (sim_df ! k) \<le> Periode p)"
  proof (intro impI conjI ballI)
    fix p
    assume s: "sorted_wrt (<) (map Periode sim_df)" and pin: "p \<in> set sim_df"
      and eq: "Total_Simulasi p = Total_Simulasi (sim_df ! i)"
    have "\<forall>j<i. Total_Simulasi (sim_df ! j) \<noteq> Total_Simulasi p" using mxs eq by auto
    from first_extreme_earliest [OF s i(1) pin this] eq
    show "Periode (sim_df ! i) \<le> Periode p" by simp
  next
    fix p
    assume s: "sorted_wrt (<) (map Periode sim_df)" and pin: "p \<in> set sim_df"
      and eq: "Total_Simulasi p = Total_Simulasi (sim_df ! k)"
    have "\<forall>j<k. Total_Simulasi (sim_df ! j) \<noteq> Total_Simulasi p" using mns eq by auto
    from first_extreme_earliest [OF s k(1) pin this] eq
    show "Periode (sim_df ! k) \<le> Periode p" by simp
  qed
  show "\<exists>i k. i < length sim_df \<and> k < length sim_df \<and>
        perform_summary_analysis sim_df = Some (sim_df ! i, sim_df ! k) \<and>
        (\<forall>p\<in>set sim_df. Total_Simulasi p \<le> Total_Simulasi (sim_df ! i)) \<and>
        (\<forall>j<i. Total_Simulasi (sim_df ! j) < Total_Simulasi (sim_df ! i)) \<and>
        (\<forall>p\<in>set sim_df. Total_Simulasi (sim_df ! k) \<le> Total_Simulasi p) \<and>
        (\<forall>j<k. Total_Simulasi (sim_df ! k) < Total_Simulasi (sim_df ! j)) \<and>
        (sorted_wrt (<) (map Periode sim_df) \<longrightarrow>
           (\<forall>p\<in>set sim_df. Total_Simulasi p = Total_Simulasi (sim_df ! i)
                               \<longrightarrow> Periode (sim_df ! i) \<le> Periode p) \<and>
           (\<forall>p\<in>set sim_df. Total_Simulasi p = Total_Simulasi (sim_df ! k)
                               \<longrightarrow> Periode (sim_df ! k) \<le> Periode p))"
    using i(1) k(1) p mx mxs mn mns e by blast
qed

theorem extremes_first_max_min_witness:
  "example_periods \<noteq> [] \<and> sorted_wrt (<) (map Periode example_periods) \<and>
   perform_summary_analysis example_periods = Some (mk_period 2 9, mk_period 1 5)"
proof -
  have "perform_summary_analysis example_periods = Some (mk_period 2 9, mk_period 1 5)"
    using extremes_first_max_min [of example_periods]
    by (simp add: example_periods_def perform_summary_analysis_def idxmax_def idxmin_def
        mk_period_def)
  then show ?thesis by (simp add: example_periods_def mk_period_def)
qed

section \<open>The tables are only read\<close>

text \<open>
  The sampler over the store makes one \<^verbatim>\<open>Series\<close> for each row it reaches and changes
  no frame; its value is the value of the sampler on the rows of the frame.
\<close>

lemma series_at_new: "series_at (snd (Series_new r s)) (fst (Series_new r s)) = r"
  by (simp add: Series_new_def series_at_def)

lemma frames_Series_new: "frames (snd (Series_new r s)) = frames s"
  by (simp add: Series_new_def)

lemma sample_loop_ref_spec:
  "fst (sample_loop_ref dec lo rows d s) = sample_loop dec lo rows d \<and>
   frames (snd (sample_loop_ref dec lo rows d s)) = frames s"
proof (induction rows arbitrary: lo s)
  case Nil
  then show ?case by simp
next
  case (Cons r rows)
  obtain a s' where n: "Series_new r s = (a, s')" by (cases "Series_new r s")
  have r: "series_at s' a = r" and f: "frames s' = frames s"
    using series_at_new [of r s] frames_Series_new [of r s] n by simp_all
  show ?case
    using Cons.IH [of _ s'] by (simp add: n r f split: sum.splits)
qed

lemma get_simulation_value_ref_spec:
  "fst (get_simulation_value_ref dec df d s) = get_simulation_value dec (frame_at s df) d \<and>
   frames (snd (get_simulation_value_ref dec df d s)) = frames s"
  unfolding get_simulation_value_ref_def get_simulation_value_def
  by (rule sample_loop_ref_spec)

lemma frame_at_append_empty:
  "frames s' = frames s @ replicate m [] \<Longrightarrow> frame_at s' a = frame_at s a"
  by (auto simp: frame_at_def nth_append)

lemma sample_category_spec:
  "fst (sample_category dec k acak w)
     = get_simulation_value dec (dict_get (tables_of w) k) acak \<and>
   frames (store (snd (sample_category dec k acak w))) = frames (store w) @ [[]] \<and>
   tables_ref (snd (sample_category dec k acak w)) = tables_ref w \<and>
   ref_rng (snd (sample_category dec k acak w)) = ref_rng w \<and>
   ref_rng_calls (snd (sample_category dec k acak w)) = ref_rng_calls w \<and>
   ref_bar (snd (sample_category dec k acak w)) = ref_bar w"
proof -
  define s1 where "s1 = (store w)\<lparr>frames := frames (store w) @ [[]]\<rparr>"
  define df where "df = (case tables_ref w k of None \<Rightarrow> length (frames (store w)) | Some a \<Rightarrow> a)"
  have e: "frames s1 = frames (store w) @ replicate 1 []" by (simp add: s1_def)
  have v: "frame_at s1 df = dict_get (tables_of w) k"
  proof (cases "tables_ref w k")
    case None
    then show ?thesis
      by (simp add: df_def dict_get_def tables_of_def frame_at_def s1_def)
  next
    case (Some a)
    then show ?thesis
      using frame_at_append_empty [OF e, of a]
      by (simp add: df_def dict_get_def tables_of_def)
  qed
  obtain r s2 where g: "get_simulation_value_ref dec df acak s1 = (r, s2)"
    by (cases "get_simulation_value_ref dec df acak s1")
  from get_simulation_value_ref_spec [of dec df acak s1] g v
  have "r = get_simulation_value dec (dict_get (tables_of w) k) acak" "frames s2 = frames s1"
    by simp_all
  moreover have "sample_category dec k acak w = (r, w\<lparr>store := s2\<rparr>)"
    using g by (simp add: sample_category_def DataFrame_new_def s1_def df_def)
  ultimately show ?thesis by (simp add: s1_def)
qed

text \<open>Steps that only allocate compose, and they leave every table as it is read.\<close>

lemma allocates_onlyI: "frames s' = frames s @ replicate m [] \<Longrightarrow> allocates_only s s'"
  by (simp add: allocates_only_def)

lemma allocates_only_refl: "allocates_only s s"
  by (simp add: allocates_only_def)

lemma allocates_only_trans:
  assumes "allocates_only s s'" "allocates_only s' s''"
  shows "allocates_only s s''"
proof -
  from assms obtain m n where "frames s' = frames s @ replicate m []"
    "frames s'' = frames s' @ replicate n []"
    unfolding allocates_only_def by blast
  then have "frames s'' = frames s @ replicate (m + n) []"
    by (simp add: replicate_add)
  then show ?thesis by (rule allocates_onlyI)
qed

lemma allocates_only_frame_at: "allocates_only s s' \<Longrightarrow> frame_at s' a = frame_at s a"
  unfolding allocates_only_def by (rule frame_at_append_empty)

lemma allocates_only_take:
  "allocates_only s s' \<Longrightarrow> take (length (frames s)) (frames s') = frames s"
  unfolding allocates_only_def by (metis append_eq_conv_conj)

lemma keeps_refl: "keeps w w"
  by (simp add: keeps_def allocates_only_refl)

lemma keeps_trans: "keeps w w' \<Longrightarrow> keeps w' w'' \<Longrightarrow> keeps w w''"
  unfolding keeps_def using allocates_only_trans by auto

lemma keeps_tables_of:
  assumes "keeps w w'"
  shows "tables_of w' = tables_of w"
proof (rule ext)
  fix k
  from assms have "frame_at (store w') a = frame_at (store w) a" for a
    by (simp add: keeps_def allocates_only_frame_at)
  then have "frame_at (store w') = frame_at (store w)" by (rule ext)
  with assms show "tables_of w' k = tables_of w k"
    by (simp add: keeps_def tables_of_def)
qed

lemma keeps_world_view: "keeps w w' \<Longrightarrow> world_view w' = world_view w"
  using keeps_tables_of [of w w'] by (simp add: world_view_def keeps_def)

lemma sample_category_step:
  "\<exists>w'. sample_category dec k acak w
           = (get_simulation_value dec (dict_get (tables_of w) k) acak, w') \<and> keeps w w'"
proof -
  let ?w' = "snd (sample_category dec k acak w)"
  note s = sample_category_spec [of dec k acak w]
  have "frames (store ?w') = frames (store w) @ replicate 1 []" using s by simp
  then have "allocates_only (store w) (store ?w')" by (rule allocates_onlyI)
  with s have "keeps w ?w'" by (simp add: keeps_def)
  moreover have "sample_category dec k acak w
      = (get_simulation_value dec (dict_get (tables_of w) k) acak, ?w')"
    using s by (simp add: prod_eq_iff)
  ultimately show ?thesis by blast
qed

lemma simulate_period_alt:
  "simulate_period dec d i a b ab ro =
     ebind (get_simulation_value dec (dict_get d ''A'') a) (\<lambda>sim_a.
     ebind (get_simulation_value dec (dict_get d ''B'') b) (\<lambda>sim_b.
     ebind (get_simulation_value dec (dict_get d ''AB'') ab) (\<lambda>sim_ab.
     ebind (get_simulation_value dec (dict_get d ''O'') ro) (\<lambda>sim_o.
     period_record i a b ab ro sim_a sim_b sim_ab sim_o))))"
  by (simp add: simulate_period_def period_record_def)

lemma simulate_period_ref_step:
  "\<exists>w'. simulate_period_ref dec i a b ab ro w
           = (simulate_period dec (tables_of w) i a b ab ro, w') \<and> keeps w w'"
proof -
  obtain w1 where 1: "sample_category dec ''A'' a w
      = (get_simulation_value dec (dict_get (tables_of w) ''A'') a, w1)" "keeps w w1"
    using sample_category_step by blast
  obtain w2 where 2: "sample_category dec ''B'' b w1
      = (get_simulation_value dec (dict_get (tables_of w1) ''B'') b, w2)" "keeps w1 w2"
    using sample_category_step by blast
  obtain w3 where 3: "sample_category dec ''AB'' ab w2
      = (get_simulation_value dec (dict_get (tables_of w2) ''AB'') ab, w3)" "keeps w2 w3"
    using sample_category_step by blast
  obtain w4 where 4: "sample_category dec ''O'' ro w3
      = (get_simulation_value dec (dict_get (tables_of w3) ''O'') ro, w4)" "keeps w3 w4"
    using sample_category_step by blast
  have k: "keeps w w1" "keeps w w2" "keeps w w3" "keeps w w4"
    using 1(2) 2(2) 3(2) 4(2) keeps_trans by blast+
  have t: "tables_of w1 = tables_of w" "tables_of w2 = tables_of w" "tables_of w3 = tables_of w"
    using k keeps_tables_of by blast+
  show ?thesis
  proof (cases "get_simulation_value dec (dict_get (tables_of w) ''A'') a")
    case (Inl e)
    with 1 k(1) show ?thesis
      by (simp add: simulate_period_ref_def simulate_period_alt ebind_def)
  next
    case a: (Inr sim_a)
    show ?thesis
    proof (cases "get_simulation_value dec (dict_get (tables_of w) ''B'') b")
      case (Inl e)
      with 1 2 a k(2) t show ?thesis
        by (simp add: simulate_period_ref_def simulate_period_alt ebind_def)
    next
      case b: (Inr sim_b)
      show ?thesis
      proof (cases "get_simulation_value dec (dict_get (tables_of w) ''AB'') ab")
        case (Inl e)
        with 1 2 3 a b k(3) t show ?thesis
          by (simp add: simulate_period_ref_def simulate_period_alt ebind_def)
      next
        case c: (Inr sim_ab)
        show ?thesis
        proof (cases "get_simulation_value dec (dict_get (tables_of w) ''O'') ro")
          case (Inl e)
          with 1 2 3 4 a b c k(4) t show ?thesis
            by (simp add: simulate_period_ref_def simulate_period_alt ebind_def)
        next
          case (Inr sim_o)
          with 1 2 3 4 a b c k(4) t show ?thesis
            by (simp add: simulate_period_ref_def simulate_period_alt ebind_def)
        qed
      qed
    qed
  qed
qed

text \<open>
  The loop over the store, seen through \<open>world_view\<close>, is the loop on table values, and it
  keeps the dictionary and only allocates.
\<close>

lemma tables_of_update [simp]:
  "tables_of (w\<lparr>ref_bar := b\<rparr>) = tables_of w"
  "tables_of (w\<lparr>ref_rng_calls := c\<rparr>) = tables_of w"
  by (rule ext, simp add: tables_of_def)+

lemma randint_ref_view:
  "randint_0_99 (world_view w) = (fst (randint_ref w), world_view (snd (randint_ref w)))"
  "store (snd (randint_ref w)) = store w" "tables_ref (snd (randint_ref w)) = tables_ref w"
  by (simp_all add: randint_ref_def randint_0_99_def world_view_def)

lemma world_view_bar:
  "world_view (w\<lparr>ref_bar := b\<rparr>) = (world_view w)\<lparr>bar := b\<rparr>"
  by (simp add: world_view_def)

lemma run_loop_ref_spec:
  "fst (run_loop_ref dec n k i rs w) = fst (run_loop dec n k i rs (world_view w)) \<and>
   world_view (snd (run_loop_ref dec n k i rs w)) = snd (run_loop dec n k i rs (world_view w)) \<and>
   tables_ref (snd (run_loop_ref dec n k i rs w)) = tables_ref w \<and>
   allocates_only (store w) (store (snd (run_loop_ref dec n k i rs w)))"
proof (induction k arbitrary: i rs w)
  case 0
  then show ?case by (simp add: allocates_only_refl)
next
  case (Suc k)
  define w1 where "w1 = snd (randint_ref w)"
  define w2 where "w2 = snd (randint_ref w1)"
  define w3 where "w3 = snd (randint_ref w2)"
  define w4 where "w4 = snd (randint_ref w3)"
  define a where "a = fst (randint_ref w)"
  define b where "b = fst (randint_ref w1)"
  define ab where "ab = fst (randint_ref w2)"
  define ro where "ro = fst (randint_ref w3)"
  have r: "randint_ref w = (a, w1)" "randint_ref w1 = (b, w2)" "randint_ref w2 = (ab, w3)"
    "randint_ref w3 = (ro, w4)"
    by (simp_all add: a_def b_def ab_def ro_def w1_def w2_def w3_def w4_def)
  have v: "randint_0_99 (world_view w) = (a, world_view w1)"
    "randint_0_99 (world_view w1) = (b, world_view w2)"
    "randint_0_99 (world_view w2) = (ab, world_view w3)"
    "randint_0_99 (world_view w3) = (ro, world_view w4)"
    using randint_ref_view(1) by (simp_all add: a_def b_def ab_def ro_def w1_def w2_def w3_def w4_def)
  have s4: "store w4 = store w" "tables_ref w4 = tables_ref w"
    by (simp_all add: w1_def w2_def w3_def w4_def randint_ref_view)
  have d4: "distribusi_dict (world_view w4) = tables_of w4" by (simp add: world_view_def)
  obtain w5 where p: "simulate_period_ref dec i a b ab ro w4
      = (simulate_period dec (tables_of w4) i a b ab ro, w5)" and k5: "keeps w4 w5"
    using simulate_period_ref_step by blast
  have v5: "world_view w5 = world_view w4" using k5 by (rule keeps_world_view)
  have t5: "tables_ref w5 = tables_ref w" "allocates_only (store w) (store w5)"
    using k5 s4 by (simp_all add: keeps_def)
  show ?case
  proof (cases "simulate_period dec (tables_of w4) i a b ab ro")
    case (Inl e)
    then show ?thesis by (simp add: r v d4 p v5 t5)
  next
    case (Inr q)
    show ?thesis
    proof (cases "int_truediv (i + 1) n")
      case (Inl e)
      with Inr show ?thesis by (simp add: r v d4 p v5 t5)
    next
      case f: (Inr f)
      let ?w = "w5\<lparr>ref_bar := ref_bar w5 @ [Bar_progress f]\<rparr>"
      note ih = Suc.IH [of "i + 1" "rs @ [q]" ?w]
      have vb: "world_view ?w = (world_view w4)\<lparr>bar := bar (world_view w4) @ [Bar_progress f]\<rparr>"
        using v5 by (simp add: world_view_bar) (simp add: world_view_def)
      have "allocates_only (store w) (store (snd (run_loop_ref dec n k (i + 1) (rs @ [q]) ?w)))"
        using ih t5(2) allocates_only_trans [of "store w" "store w5"] by simp
      with ih vb t5 Inr f show ?thesis by (simp add: r v d4 p)
    qed
  qed
qed

lemma run_ref_spec:
  "fst (run_monte_carlo_simulation_ref dec n w)
     = fst (run_monte_carlo_simulation dec n (world_view w)) \<and>
   world_view (snd (run_monte_carlo_simulation_ref dec n w))
     = snd (run_monte_carlo_simulation dec n (world_view w)) \<and>
   tables_ref (snd (run_monte_carlo_simulation_ref dec n w)) = tables_ref w \<and>
   allocates_only (store w) (store (snd (run_monte_carlo_simulation_ref dec n w)))"
proof -
  let ?w = "w\<lparr>ref_bar := ref_bar w @ [Bar_progress (Finite 0)]\<rparr>"
  note l = run_loop_ref_spec [of dec n "nat n" 0 "[]" ?w]
  have vb: "world_view ?w = (world_view w)\<lparr>bar := bar (world_view w) @ [Bar_progress (Finite 0)]\<rparr>"
    by (simp add: world_view_bar) (simp add: world_view_def)
  obtain r w' where rl: "run_loop_ref dec n (nat n) 0 [] ?w = (r, w')"
    by (cases "run_loop_ref dec n (nat n) 0 [] ?w")
  with l vb have p: "run_loop dec n (nat n) 0 []
        ((world_view w)\<lparr>bar := bar (world_view w) @ [Bar_progress (Finite 0)]\<rparr>) = (r, world_view w')"
    "tables_ref w' = tables_ref w" "allocates_only (store w) (store w')"
    by (simp_all add: prod_eq_iff)
  show ?thesis
    unfolding run_monte_carlo_simulation_ref_def run_monte_carlo_simulation_def rl p(1)
    using p(2,3) by (cases r) (simp_all add: world_view_bar, simp_all add: world_view_def)
qed

text \<open>A period that returns has added four frames, one for each call of \<^verbatim>\<open>dict.get\<close>.\<close>

lemma world_view_A: "world_view ref_world_A = world_of dict_A"
proof -
  have "tables_of ref_world_A = dict_A"
    by (rule ext) (simp add: tables_of_def ref_world_A_def dict_A_def frame_at_def)
  then show ?thesis by (simp add: world_view_def world_of_def) (simp add: ref_world_A_def)
qed

lemma sample_category_allocs:
  "length (frames (store (snd (sample_category dec k acak w)))) = Suc (length (frames (store w)))"
  using sample_category_spec [of dec k acak w] by simp

lemma simulate_period_ref_allocs:
  assumes "fst (simulate_period_ref dec i a b ab ro w) = Inr p"
  shows "length (frames (store (snd (simulate_period_ref dec i a b ab ro w))))
           = length (frames (store w)) + 4"
proof -
  obtain r1 w1 where 1: "sample_category dec ''A'' a w = (r1, w1)"
    by (cases "sample_category dec ''A'' a w")
  obtain r2 w2 where 2: "sample_category dec ''B'' b w1 = (r2, w2)"
    by (cases "sample_category dec ''B'' b w1")
  obtain r3 w3 where 3: "sample_category dec ''AB'' ab w2 = (r3, w3)"
    by (cases "sample_category dec ''AB'' ab w2")
  obtain r4 w4 where 4: "sample_category dec ''O'' ro w3 = (r4, w4)"
    by (cases "sample_category dec ''O'' ro w3")
  have l: "length (frames (store w4)) = length (frames (store w)) + 4"
    using sample_category_allocs [of dec "''A''" a w] sample_category_allocs [of dec "''B''" b w1]
      sample_category_allocs [of dec "''AB''" ab w2] sample_category_allocs [of dec "''O''" ro w3]
      1 2 3 4 by simp
  from assms 1 2 3 4 have "snd (simulate_period_ref dec i a b ab ro w) = w4"
    by (cases r1; cases r2; cases r3; cases r4) (simp_all add: simulate_period_ref_def)
  with l show ?thesis by simp
qed

lemma run_loop_ref_allocs:
  "fst (run_loop_ref dec n k i rs w) = Inr rs' \<Longrightarrow>
   length (frames (store (snd (run_loop_ref dec n k i rs w)))) = length (frames (store w)) + 4 * k"
proof (induction k arbitrary: i rs w)
  case 0
  then show ?case by simp
next
  case (Suc k)
  obtain a w1 where 1: "randint_ref w = (a, w1)" by (cases "randint_ref w")
  obtain b w2 where 2: "randint_ref w1 = (b, w2)" by (cases "randint_ref w1")
  obtain ab w3 where 3: "randint_ref w2 = (ab, w3)" by (cases "randint_ref w2")
  obtain ro w4 where 4: "randint_ref w3 = (ro, w4)" by (cases "randint_ref w3")
  have s: "store w4 = store w" using 1 2 3 4 by (auto simp: randint_ref_def)
  obtain q w5 where p: "simulate_period_ref dec i a b ab ro w4 = (q, w5)"
    by (cases "simulate_period_ref dec i a b ab ro w4")
  show ?case
  proof (cases q)
    case (Inl e)
    with Suc.prems 1 2 3 4 p show ?thesis by simp
  next
    case q: (Inr p0)
    have l5: "length (frames (store w5)) = length (frames (store w)) + 4"
      using simulate_period_ref_allocs [of dec i a b ab ro w4 p0] p q s by simp
    show ?thesis
    proof (cases "int_truediv (i + 1) n")
      case (Inl e)
      with Suc.prems 1 2 3 4 p q show ?thesis by simp
    next
      case f: (Inr f)
      have e: "run_loop_ref dec n (Suc k) i rs w =
          run_loop_ref dec n k (i + 1) (rs @ [p0]) (w5\<lparr>ref_bar := ref_bar w5 @ [Bar_progress f]\<rparr>)"
        using 1 2 3 4 p q f by simp
      from Suc.IH [of "i + 1" "rs @ [p0]" "w5\<lparr>ref_bar := ref_bar w5 @ [Bar_progress f]\<rparr>"]
        Suc.prems l5 show ?thesis unfolding e by simp
    qed
  qed
qed

lemma run_ref_allocs:
  assumes "fst (run_monte_carlo_simulation_ref dec n w) = Inr rs"
  shows "length (frames (store (snd (run_monte_carlo_simulation_ref dec n w))))
           = length (frames (store w)) + 4 * nat n"
proof -
  let ?w0 = "w\<lparr>ref_bar := ref_bar w @ [Bar_progress (Finite 0)]\<rparr>"
  obtain q w' where l: "run_loop_ref dec n (nat n) 0 [] ?w0 = (q, w')"
    by (cases "run_loop_ref dec n (nat n) 0 [] ?w0")
  from assms l have q: "q = Inr rs"
    by (cases q) (simp_all add: run_monte_carlo_simulation_ref_def)
  from run_loop_ref_allocs [of dec n "nat n" 0 "[]" ?w0 rs] l q
  have "length (frames (store w')) = length (frames (store w)) + 4 * nat n" by simp
  with l q show ?thesis by (simp add: run_monte_carlo_simulation_ref_def)
qed

lemma tables_of_kept:
  assumes "tables_ref w' = tables_ref w" "allocates_only (store w) (store w')"
  shows "tables_of w' = tables_of w"
proof (rule ext)
  fix k
  from assms(2) have "frame_at (store w') a = frame_at (store w) a" for a
    by (rule allocates_only_frame_at)
  then have "frame_at (store w') = frame_at (store w)" by (rule ext)
  with assms(1) show "tables_of w' k = tables_of w k" by (simp add: tables_of_def)
qed

text \<open>
  Claim C10. After a run over the store, whatever the period count and whether the run
  returns or raises: every key of the dictionary refers to the frame it referred to; the
  frames that existed are at their addresses with the rows they had, so that the tables
  which the dictionary denotes are the tables before the run; the frames that the run added
  (one empty frame for each call of \<^verbatim>\<open>dict.get\<close>) are not reachable from the dictionary.
  A call of the sampler leaves every frame as it was. The sampler and the run over the
  store compute what the sampler and the run on table values compute.
\<close>

theorem tables_not_modified:
  "tables_of (snd (run_monte_carlo_simulation_ref dec n w)) = tables_of w \<and>
   tables_ref (snd (run_monte_carlo_simulation_ref dec n w)) = tables_ref w \<and>
   take (length (frames (store w))) (frames (store (snd (run_monte_carlo_simulation_ref dec n w))))
     = frames (store w) \<and>
   (\<forall>df. frame_at (store (snd (run_monte_carlo_simulation_ref dec n w))) df
           = frame_at (store w) df) \<and>
   frames (snd (get_simulation_value_ref dec df d s)) = frames s \<and>
   fst (get_simulation_value_ref dec df d s) = get_simulation_value dec (frame_at s df) d \<and>
   fst (run_monte_carlo_simulation_ref dec n w)
     = fst (run_monte_carlo_simulation dec n (world_view w))"
  using run_ref_spec [of dec n w] get_simulation_value_ref_spec [of dec df d s]
    allocates_only_take [of "store w" "store (snd (run_monte_carlo_simulation_ref dec n w))"]
    allocates_only_frame_at [of "store w" "store (snd (run_monte_carlo_simulation_ref dec n w))"]
    tables_of_kept [of "snd (run_monte_carlo_simulation_ref dec n w)" w]
  by simp

text \<open>
  One period over the example store: the table of A is read back as it was, the result is
  the record of the run on values, and the store has grown from 2 to 6 frames.
\<close>

theorem tables_not_modified_witness:
  "frame_at (store ref_world_A) 0 = table_A \<and>
   frame_at (store (snd (run_monte_carlo_simulation_ref ascii_dec 1 ref_world_A))) 0 = table_A \<and>
   tables_ref (snd (run_monte_carlo_simulation_ref ascii_dec 1 ref_world_A))
     = tables_ref ref_world_A \<and>
   fst (run_monte_carlo_simulation_ref ascii_dec 1 ref_world_A) = Inr [period_A] \<and>
   length (frames (store ref_world_A)) = 2 \<and>
   length (frames (store (snd (run_monte_carlo_simulation_ref ascii_dec 1 ref_world_A)))) = 6"
proof -
  note t = tables_not_modified [of ascii_dec 1 ref_world_A 0 0 "store ref_world_A"]
  have f0: "frame_at (store ref_world_A) 0 = table_A" "length (frames (store ref_world_A)) = 2"
    by (simp_all add: ref_world_A_def frame_at_def)
  have r: "fst (run_monte_carlo_simulation_ref ascii_dec 1 ref_world_A) = Inr [period_A]"
    using t one_period_eval [OF period_A_eval] by (simp add: world_view_A)
  from run_ref_allocs [OF r] f0 t r show ?thesis by simp
qed

end
